theory Spec2Isabelle
  imports Main "HOL-Library.AList"
begin

section \<open>Data model\<close>

text \<open>
  A field is a row of the field table: its primary key, its name, the table that owns it
  and its type. Only one type matters to the dependency code, \<open>LinkRowField\<close>, which
  carries \<open>link_row_table\<close>, the table it links to; every other type is \<open>OtherField\<close>.
  Fields and tables are referred to by their primary keys.
\<close>

datatype field_kind = OtherField | LinkRowField nat

record field_row =
  field_id :: nat
  field_name :: string
  field_table :: nat
  field_kind :: field_kind
  trashed :: bool

text \<open>
  A \<open>FieldDependency\<close> row. \<open>dep_id\<close> is the primary key, \<open>None\<close> for an object that has
  not been saved yet; the three foreign keys hold field ids.
\<close>

record field_dependency =
  dep_id :: "nat option"
  dependant :: nat
  dependency :: "nat option"
  via :: "nat option"
  broken_reference_field_name :: "string option"

text \<open>
  The part of the database the code reads and writes: the field table, the
  \<open>FieldDependency\<close> table in query order, and the next primary key the dependency table
  hands out.
\<close>

record database =
  field_rows :: "field_row list"
  dependency_rows :: "field_dependency list"
  next_dep_id :: nat

datatype error = SelfReferenceFieldDependencyError | CircularFieldDependencyError

text \<open>
  What a field type's \<open>get_field_dependencies\<close> yields for one dependency: a bare field
  name, or a tuple \<open>(via_field_name, dependency)\<close>.
\<close>

datatype dependency_descriptor = FieldName string | ViaField string string

text \<open>
  The two collaborators whose code is not part of the rebuilder are parameters of the
  functions that call them: the field cache, \<open>lookup_by_name(table, name)\<close>, and the
  circular reference checker, \<open>will_cause_circular_dep(from_field, to_field)\<close>, which
  reads the dependency table and compares fields by primary key.
\<close>

type_synonym field_cache = "nat \<Rightarrow> string \<Rightarrow> field_row option"

type_synonym circular_checker = "field_dependency list \<Rightarrow> nat \<Rightarrow> nat \<Rightarrow> bool"

definition is_link_row :: "field_row \<Rightarrow> bool" where
  "is_link_row f = (case field_kind f of LinkRowField t \<Rightarrow> True | OtherField \<Rightarrow> False)"

definition get_field :: "database \<Rightarrow> nat \<Rightarrow> field_row option" where
  "get_field db i = find (\<lambda>f. field_id f = i) (field_rows db)"

text \<open>
  Modelled from the spec: \<open>FieldDependency.__str__\<close> is not among the sources. The spec
  gives the canonical key as \<open>dependant_id:dependency_id:via_id\<close> for a resolved edge and
  \<open>dependant_id:via_id:broken_reference_field_name\<close> for a broken one, and recommends a
  composite key instead of formatted text; the key is that composite.
\<close>

datatype dep_key =
  ResolvedKey nat nat "nat option"
  | BrokenKey nat "nat option" "string option"

definition str_dep :: "field_dependency \<Rightarrow> dep_key" where
  "str_dep d =
     (case dependency d of
        Some t \<Rightarrow> ResolvedKey (dependant d) t (via d)
      | None \<Rightarrow> BrokenKey (dependant d) (via d) (broken_reference_field_name d))"

text \<open>
  Modelled from the spec: \<open>FieldCache.lookup_by_name\<close> is not among the sources. It
  returns the live field of that name in the table, or not-found.
\<close>

definition lookup_by_name :: "field_row list \<Rightarrow> field_cache" where
  "lookup_by_name fs t n =
     find (\<lambda>f. field_table f = t \<and> field_name f = n \<and> \<not> trashed f) fs"

text \<open>
  Modelled from the spec: \<open>will_cause_circular_dep\<close> is not among the sources. Every
  resolved edge is an arc from its dependant to its dependency and, when it has a via,
  also from its dependant to the via; adding \<open>source \<rightarrow> target\<close> closes a cycle when
  \<open>target\<close> reaches \<open>source\<close> or is \<open>source\<close>.
\<close>

definition dep_arcs :: "field_dependency \<Rightarrow> (nat \<times> nat) list" where
  "dep_arcs d =
     (case dependency d of
        None \<Rightarrow> []
      | Some t \<Rightarrow>
          (dependant d, t) # (case via d of None \<Rightarrow> [] | Some v \<Rightarrow> [(dependant d, v)]))"

definition will_cause_circular_dep :: circular_checker where
  "will_cause_circular_dep rows source target =
     ((target, source) \<in> (set (concat (map dep_arcs rows)))\<^sup>*)"

section \<open>Breaking and repairing references\<close>

text \<open>
  \<open>break_dependencies_for_field\<close>: delete the rows whose dependant is the field, update
  the rows of \<open>field.dependants\<close> (those whose dependency is the field), and for a
  \<open>LinkRowField\<close> update the rows of \<open>field.vias\<close>.
\<close>

definition break_dependencies_for_field :: "field_row \<Rightarrow> database \<Rightarrow> database" where
  "break_dependencies_for_field field db =
     (let rows1 = filter (\<lambda>d. dependant d \<noteq> field_id field) (dependency_rows db);
          rows2 = map (\<lambda>d. if dependency d = Some (field_id field)
                           then d\<lparr>dependency := None,
                                  broken_reference_field_name := Some (field_name field)\<rparr>
                           else d) rows1;
          rows3 = (if is_link_row field
                   then map (\<lambda>d. if via d = Some (field_id field)
                                  then d\<lparr>dependency := None,
                                         broken_reference_field_name := Some (field_name field),
                                         via := None\<rparr>
                                  else d) rows2
                   else rows2)
      in db\<lparr>dependency_rows := rows3\<rparr>)"

text \<open>
  The query of \<open>update_fields_with_broken_references\<close>: the two \<open>Q\<close> objects joined by
  \<open>|\<close>. \<open>dependant__table\<close> and \<open>via__link_row_table\<close> follow the foreign keys into the
  field table.
\<close>

definition dependant_table_is :: "database \<Rightarrow> field_dependency \<Rightarrow> nat \<Rightarrow> bool" where
  "dependant_table_is db d t =
     (case get_field db (dependant d) of None \<Rightarrow> False | Some f \<Rightarrow> field_table f = t)"

definition via_link_row_table_is :: "database \<Rightarrow> field_dependency \<Rightarrow> nat \<Rightarrow> bool" where
  "via_link_row_table_is db d t =
     (case via d of
        None \<Rightarrow> False
      | Some v \<Rightarrow>
          (case get_field db v of
             None \<Rightarrow> False
           | Some f \<Rightarrow> field_kind f = LinkRowField t))"

definition fixed_by_fields_name :: "database \<Rightarrow> field_row \<Rightarrow> field_dependency \<Rightarrow> bool" where
  "fixed_by_fields_name db field d =
     ((dependant_table_is db d (field_table field)
         \<and> broken_reference_field_name d = Some (field_name field))
      \<or> (via_link_row_table_is db d (field_table field)
         \<and> broken_reference_field_name d = Some (field_name field)))"

text \<open>The loop that collects \<open>updated_deps\<close>; the checker reads the table as it was.\<close>

fun collect_updated_deps ::
  "circular_checker \<Rightarrow> field_dependency list \<Rightarrow> field_row \<Rightarrow> field_dependency list
     \<Rightarrow> field_dependency list" where
  "collect_updated_deps circ rows field [] = []"
| "collect_updated_deps circ rows field (dep # deps) =
     (if \<not> circ rows (dependant dep) (field_id field)
      then dep\<lparr>dependency := Some (field_id field), broken_reference_field_name := None\<rparr>
             # collect_updated_deps circ rows field deps
      else collect_updated_deps circ rows field deps)"

text \<open>
  \<open>bulk_update(objs, ["dependency", "broken_reference_field_name"])\<close>: each row whose
  primary key is that of an object takes the two columns from the object.
\<close>

definition bulk_update :: "field_dependency list \<Rightarrow> field_dependency list \<Rightarrow> field_dependency list" where
  "bulk_update objs rows =
     map (\<lambda>row. case find (\<lambda>obj. dep_id obj = dep_id row) objs of
                  None \<Rightarrow> row
                | Some obj \<Rightarrow> row\<lparr>dependency := dependency obj,
                                  broken_reference_field_name := broken_reference_field_name obj\<rparr>)
         rows"

definition update_fields_with_broken_references ::
  "circular_checker \<Rightarrow> field_row \<Rightarrow> database \<Rightarrow> bool \<times> database" where
  "update_fields_with_broken_references circ field db =
     (let broken_dependencies_fixed_by_fields_name =
            filter (fixed_by_fields_name db field) (dependency_rows db);
          updated_deps =
            collect_updated_deps circ (dependency_rows db) field
              broken_dependencies_fixed_by_fields_name
      in (length updated_deps > 0,
          db\<lparr>dependency_rows := bulk_update updated_deps (dependency_rows db)\<rparr>))"

section \<open>Constructing the edges of one descriptor\<close>

definition FieldDependency :: "nat \<Rightarrow> nat option \<Rightarrow> nat option \<Rightarrow> string option \<Rightarrow> field_dependency" where
  "FieldDependency dependant_id dependency_id via_id broken =
     \<lparr>dep_id = None, dependant = dependant_id, dependency = dependency_id, via = via_id,
      broken_reference_field_name = broken\<rparr>"

fun construct_dependency ::
  "field_row \<Rightarrow> dependency_descriptor \<Rightarrow> field_cache \<Rightarrow> error + field_dependency list" where
  "construct_dependency field_instance (FieldName dep_name) field_lookup_cache =
     (if field_name field_instance = dep_name then Inl SelfReferenceFieldDependencyError
      else (case field_lookup_cache (field_table field_instance) dep_name of
              None \<Rightarrow> Inr [FieldDependency (field_id field_instance) None None (Some dep_name)]
            | Some dependency_field \<Rightarrow>
                Inr [FieldDependency (field_id field_instance) (Some (field_id dependency_field))
                       None None]))"
| "construct_dependency field_instance (ViaField via_field_name dep_name) field_lookup_cache =
     (case field_lookup_cache (field_table field_instance) via_field_name of
        None \<Rightarrow> Inr [FieldDependency (field_id field_instance) None None (Some via_field_name)]
      | Some via_field \<Rightarrow>
          (case field_kind via_field of
             OtherField \<Rightarrow>
               Inr [FieldDependency (field_id field_instance) (Some (field_id via_field)) None None]
           | LinkRowField target_table \<Rightarrow>
               (case field_lookup_cache target_table dep_name of
                  None \<Rightarrow>
                    Inr [FieldDependency (field_id field_instance) None (Some (field_id via_field))
                           (Some dep_name)]
                | Some target_field \<Rightarrow>
                    Inr ((if field_id field_instance \<noteq> field_id via_field
                          then [FieldDependency (field_id field_instance)
                                  (Some (field_id via_field)) None None]
                          else [])
                         @ [FieldDependency (field_id field_instance) (Some (field_id target_field))
                              (Some (field_id via_field)) None]))))"

section \<open>Rebuilding the dependencies of a field\<close>

text \<open>The loop over \<open>field_dependencies\<close> that accumulates \<open>new_dependencies\<close>.\<close>

fun construct_all ::
  "field_row \<Rightarrow> dependency_descriptor list \<Rightarrow> field_cache \<Rightarrow> error + field_dependency list" where
  "construct_all field_instance [] field_lookup_cache = Inr []"
| "construct_all field_instance (d # ds) field_lookup_cache =
     (case construct_dependency field_instance d field_lookup_cache of
        Inl e \<Rightarrow> Inl e
      | Inr deps \<Rightarrow>
          (case construct_all field_instance ds field_lookup_cache of
             Inl e \<Rightarrow> Inl e
           | Inr rest \<Rightarrow> Inr (deps @ rest)))"

text \<open>
  \<open>{str(dep): dep for dep in deps}\<close>: a dictionary keeps its keys in the order of their
  first insertion and the last value stored under each.
\<close>

definition deps_by_str :: "field_dependency list \<Rightarrow> (dep_key \<times> field_dependency) list" where
  "deps_by_str deps = foldl (\<lambda>al dep. AList.update (str_dep dep) dep al) [] deps"

text \<open>
  The loop over \<open>new_deps_by_str.items()\<close>: a key found in \<open>current_deps_by_str\<close> is
  popped from it, and the dependency of any other key is appended to
  \<open>new_dependencies_to_create\<close>.
\<close>

fun pop_or_create ::
  "(dep_key \<times> field_dependency) list \<Rightarrow> (dep_key \<times> field_dependency) list
     \<Rightarrow> field_dependency list \<times> (dep_key \<times> field_dependency) list" where
  "pop_or_create [] current_deps_by_str = ([], current_deps_by_str)"
| "pop_or_create ((new_dep_str, new_dep) # items) current_deps_by_str =
     (if new_dep_str \<in> fst ` set current_deps_by_str
      then pop_or_create items (AList.delete new_dep_str current_deps_by_str)
      else (case pop_or_create items current_deps_by_str of
              (to_create, remaining) \<Rightarrow> (new_dep # to_create, remaining)))"

definition causes_circular :: "circular_checker \<Rightarrow> field_dependency list \<Rightarrow> nat \<Rightarrow> field_dependency \<Rightarrow> bool" where
  "causes_circular circ rows field_instance_id dep =
     (case dependency dep of None \<Rightarrow> False | Some t \<Rightarrow> circ rows field_instance_id t)"

text \<open>\<open>bulk_create\<close>: the new rows get the next primary keys, in order.\<close>

definition created_rows :: "nat \<Rightarrow> field_dependency list \<Rightarrow> field_dependency list" where
  "created_rows n objs =
     map (\<lambda>(i, obj). obj\<lparr>dep_id := Some (n + i)\<rparr>) (zip [0..<length objs] objs)"

definition bulk_create :: "field_dependency list \<Rightarrow> database \<Rightarrow> database" where
  "bulk_create objs db =
     db\<lparr>dependency_rows := dependency_rows db @ created_rows (next_dep_id db) objs,
        next_dep_id := next_dep_id db + length objs\<rparr>"

definition delete_by_pk :: "nat option list \<Rightarrow> database \<Rightarrow> database" where
  "delete_by_pk delete_ids db =
     db\<lparr>dependency_rows := filter (\<lambda>row. dep_id row \<notin> set delete_ids) (dependency_rows db)\<rparr>"

text \<open>
  The first half of \<open>rebuild_field_dependencies\<close>: \<open>field_dependencies\<close> is what the
  field type's \<open>get_field_dependencies\<close> returned, \<open>None\<close> or a list of descriptors.
\<close>

definition construct_new_dependencies ::
  "dependency_descriptor list option \<Rightarrow> field_row \<Rightarrow> field_cache
     \<Rightarrow> error + field_dependency list" where
  "construct_new_dependencies field_dependencies field_instance field_lookup_cache =
     (case field_dependencies of
        None \<Rightarrow> Inr []
      | Some ds \<Rightarrow> construct_all field_instance ds field_lookup_cache)"

text \<open>\<open>field_instance.dependencies.all()\<close>: the rows whose dependant is the field.\<close>

definition current_dependencies :: "field_row \<Rightarrow> database \<Rightarrow> field_dependency list" where
  "current_dependencies field_instance db =
     filter (\<lambda>d. dependant d = field_id field_instance) (dependency_rows db)"

text \<open>
  The second half: the diff against the current rows, the circular check of every
  dependency to create, and only then the two writes.
\<close>

definition diff_and_persist ::
  "circular_checker \<Rightarrow> field_row \<Rightarrow> field_dependency list \<Rightarrow> database
     \<Rightarrow> (error + unit) \<times> database" where
  "diff_and_persist circ field_instance new_dependencies db =
     (case pop_or_create (deps_by_str new_dependencies)
             (deps_by_str (current_dependencies field_instance db)) of
        (new_dependencies_to_create, remaining) \<Rightarrow>
          if list_ex (causes_circular circ (dependency_rows db) (field_id field_instance))
               new_dependencies_to_create
          then (Inl CircularFieldDependencyError, db)
          else (Inr (),
                delete_by_pk (map (\<lambda>(k, dep). dep_id dep) remaining)
                  (bulk_create new_dependencies_to_create db)))"

text \<open>
  \<open>rebuild_field_dependencies\<close>. The result pairs the outcome with the database as the
  call leaves it, so an exception shows what had been written when it was raised.
\<close>

definition rebuild_field_dependencies ::
  "circular_checker \<Rightarrow> dependency_descriptor list option \<Rightarrow> field_row \<Rightarrow> field_cache
     \<Rightarrow> database \<Rightarrow> (error + unit) \<times> database" where
  "rebuild_field_dependencies circ field_dependencies field_instance field_lookup_cache db =
     (case construct_new_dependencies field_dependencies field_instance field_lookup_cache of
        Inl e \<Rightarrow> (Inl e, db)
      | Inr new_dependencies \<Rightarrow> diff_and_persist circ field_instance new_dependencies db)"

section \<open>The diff in closed form, and the state of the table\<close>

text \<open>
  What the loop of \<open>pop_or_create\<close> leaves: the dependencies to create are the values of
  \<open>new_deps_by_str\<close> whose key no current row has, and the ids to delete are those of the
  values of \<open>current_deps_by_str\<close> whose key no new dependency has.
\<close>

definition to_create :: "field_dependency list \<Rightarrow> field_dependency list \<Rightarrow> field_dependency list" where
  "to_create new cur = map snd (filter (\<lambda>(k, v). k \<notin> str_dep ` set cur) (deps_by_str new))"

definition delete_ids :: "field_dependency list \<Rightarrow> field_dependency list \<Rightarrow> nat option list" where
  "delete_ids new cur =
     map (\<lambda>(k, dep). dep_id dep) (filter (\<lambda>(k, v). k \<notin> str_dep ` set new) (deps_by_str cur))"

text \<open>
  The primary keys of the dependency table are unique and below the next key to hand
  out, as the database keeps them.
\<close>

definition primary_keys_ok :: "database \<Rightarrow> bool" where
  "primary_keys_ok db =
     (distinct (map dep_id (dependency_rows db))
      \<and> list_all (\<lambda>r. case dep_id r of None \<Rightarrow> False | Some i \<Rightarrow> i < next_dep_id db)
            (dependency_rows db))"

text \<open>No two rows of the field's own dependencies have the same canonical key.\<close>

definition keys_unique :: "field_row \<Rightarrow> database \<Rightarrow> bool" where
  "keys_unique fi db = distinct (map str_dep (current_dependencies fi db))"

section \<open>A fixture\<close>

text \<open>
  Table 10 holds a field \<open>x\<close>, a link-row field \<open>l\<close> to table 20 and a formula
  field \<open>f\<close>; table 20 holds its primary field \<open>y\<close>. \<open>field_m\<close> is a field about to be
  created in table 20 under the name \<open>l\<close>.
\<close>

definition field_x :: field_row where
  "field_x = \<lparr>field_id = 11, field_name = ''x'', field_table = 10, field_kind = OtherField,
              trashed = False\<rparr>"

definition field_l :: field_row where
  "field_l = \<lparr>field_id = 12, field_name = ''l'', field_table = 10,
              field_kind = LinkRowField 20, trashed = False\<rparr>"

definition field_y :: field_row where
  "field_y = \<lparr>field_id = 21, field_name = ''y'', field_table = 20, field_kind = OtherField,
              trashed = False\<rparr>"

definition field_f :: field_row where
  "field_f = \<lparr>field_id = 14, field_name = ''f'', field_table = 10, field_kind = OtherField,
              trashed = False\<rparr>"

definition field_m :: field_row where
  "field_m = \<lparr>field_id = 22, field_name = ''l'', field_table = 20, field_kind = OtherField,
              trashed = False\<rparr>"

definition fixture_fields :: "field_row list" where
  "fixture_fields = [field_x, field_l, field_y, field_f]"

definition fixture_cache :: field_cache where
  "fixture_cache = lookup_by_name fixture_fields"

definition fixture_db :: "field_dependency list \<Rightarrow> nat \<Rightarrow> database" where
  "fixture_db rows n =
     \<lparr>field_rows = fixture_fields, dependency_rows = rows, next_dep_id = n\<rparr>"

definition edge :: "nat \<Rightarrow> nat \<Rightarrow> nat option \<Rightarrow> nat option \<Rightarrow> string option \<Rightarrow> field_dependency" where
  "edge i a b v n =
     \<lparr>dep_id = Some i, dependant = a, dependency = b, via = v,
      broken_reference_field_name = n\<rparr>"

section \<open>Evaluating the fixture\<close>

lemmas fixture_defs =
  field_x_def field_l_def field_y_def field_f_def fixture_fields_def fixture_cache_def
  fixture_db_def edge_def

lemma fixture_cache_simps:
  "fixture_cache 10 ''x'' = Some field_x"
  "fixture_cache 10 ''l'' = Some field_l"
  "fixture_cache 10 ''f'' = Some field_f"
  "fixture_cache 20 ''y'' = Some field_y"
  "fixture_cache 10 ''m'' = None"
  "fixture_cache 10 ''y'' = None"
  "fixture_cache 20 ''g'' = None"
  by (simp_all add: lookup_by_name_def fixture_defs)

lemma fixture_field_simps:
  "field_id field_x = 11" "field_name field_x = ''x''" "field_table field_x = 10"
  "field_kind field_x = OtherField"
  "field_id field_l = 12" "field_name field_l = ''l''" "field_table field_l = 10"
  "field_kind field_l = LinkRowField 20"
  "field_id field_y = 21" "field_name field_y = ''y''" "field_table field_y = 20"
  "field_kind field_y = OtherField"
  "field_id field_f = 14" "field_name field_f = ''f''" "field_table field_f = 10"
  "field_kind field_f = OtherField"
  by (simp_all add: fixture_defs)

section \<open>Construction\<close>

text \<open>
  C8. A via-pair descriptor whose via name does not resolve in the dependant's table
  yields exactly one broken edge, named after the via and with no via; when the via
  resolves to a link-row field and the target name does not resolve in the linked table,
  it yields exactly one broken edge, named after the target and with the via set to the
  resolved via field.
\<close>

theorem construct_dependency_via_broken:
  "(cache (field_table fi) via_name = None \<longrightarrow>
      construct_dependency fi (ViaField via_name target_name) cache =
        Inr [\<lparr>dep_id = None, dependant = field_id fi, dependency = None, via = None,
              broken_reference_field_name = Some via_name\<rparr>])
   \<and> (cache (field_table fi) via_name = Some via_field
        \<and> field_kind via_field = LinkRowField target_table
        \<and> cache target_table target_name = None \<longrightarrow>
      construct_dependency fi (ViaField via_name target_name) cache =
        Inr [\<lparr>dep_id = None, dependant = field_id fi, dependency = None,
              via = Some (field_id via_field),
              broken_reference_field_name = Some target_name\<rparr>])"
  by (simp add: FieldDependency_def)

theorem construct_dependency_via_broken_witness:
  "construct_dependency field_x (ViaField ''m'' ''y'') fixture_cache =
     Inr [\<lparr>dep_id = None, dependant = 11, dependency = None, via = None,
           broken_reference_field_name = Some ''m''\<rparr>]
   \<and> construct_dependency field_x (ViaField ''l'' ''g'') fixture_cache =
     Inr [\<lparr>dep_id = None, dependant = 11, dependency = None, via = Some 12,
           broken_reference_field_name = Some ''g''\<rparr>]"
proof -
  note construct_dependency_via_broken
         [where cache = fixture_cache and fi = field_x
            and via_name = "''m''" and target_name = "''y''"]
  then have first:
    "construct_dependency field_x (ViaField ''m'' ''y'') fixture_cache =
       Inr [\<lparr>dep_id = None, dependant = 11, dependency = None, via = None,
             broken_reference_field_name = Some ''m''\<rparr>]"
    by (simp only: fixture_field_simps fixture_cache_simps)
  note construct_dependency_via_broken
         [where cache = fixture_cache and fi = field_x
            and via_name = "''l''" and target_name = "''g''" and via_field = field_l
            and target_table = 20]
  then have second:
    "construct_dependency field_x (ViaField ''l'' ''g'') fixture_cache =
       Inr [\<lparr>dep_id = None, dependant = 11, dependency = None, via = Some 12,
             broken_reference_field_name = Some ''g''\<rparr>]"
    by (simp only: fixture_field_simps fixture_cache_simps)
  from first second show ?thesis by (rule conjI)
qed

section \<open>Self reference\<close>

lemma construct_dependency_error:
  "construct_dependency fi d cache = Inl e \<Longrightarrow> e = SelfReferenceFieldDependencyError"
  by (cases d) (auto split: if_splits option.splits field_kind.splits)

lemma construct_all_self_reference:
  "FieldName (field_name fi) \<in> set ds \<Longrightarrow>
     construct_all fi ds cache = Inl SelfReferenceFieldDependencyError"
proof (induction ds)
  case Nil
  then show ?case by simp
next
  case (Cons d ds)
  show ?case
  proof (cases "construct_dependency fi d cache")
    case (Inl e)
    then show ?thesis using construct_dependency_error[OF Inl] by simp
  next
    case (Inr deps)
    then have "d \<noteq> FieldName (field_name fi)" by auto
    with Cons have "construct_all fi ds cache = Inl SelfReferenceFieldDependencyError" by simp
    with Inr show ?thesis by simp
  qed
qed

text \<open>
  C6. When the descriptor list of a field contains its own name as a bare name, the
  rebuild raises \<open>SelfReferenceFieldDependencyError\<close> while it constructs the edges, and
  the database is as it was: no edge is created and none is deleted.
\<close>

theorem rebuild_self_reference:
  "FieldName (field_name fi) \<in> set ds \<Longrightarrow>
     rebuild_field_dependencies circ (Some ds) fi cache db =
       (Inl SelfReferenceFieldDependencyError, db)"
  by (simp add: rebuild_field_dependencies_def construct_new_dependencies_def
        construct_all_self_reference)

theorem rebuild_self_reference_witness:
  "rebuild_field_dependencies will_cause_circular_dep (Some [FieldName ''y'', FieldName ''x''])
     field_x fixture_cache (fixture_db [edge 5 14 (Some 11) None None] 6) =
       (Inl SelfReferenceFieldDependencyError, fixture_db [edge 5 14 (Some 11) None None] 6)"
proof -
  have "FieldName (field_name field_x) \<in> set [FieldName ''y'', FieldName ''x'']"
    by (simp add: fixture_field_simps)
  then show ?thesis by (rule rebuild_self_reference)
qed

section \<open>Lemmas about the rebuild\<close>

lemma update_fresh: "k \<notin> fst ` set al \<Longrightarrow> AList.update k v al = al @ [(k, v)]"
  by (induction al) auto

lemma by_str_fold_distinct:
  "distinct (map fst al) \<Longrightarrow>
     distinct (map fst (foldl (\<lambda>al dep. AList.update (str_dep dep) dep al) al xs))"
  by (induction xs arbitrary: al) (simp_all add: distinct_update)

lemma by_str_fold_keys:
  "fst ` set (foldl (\<lambda>al dep. AList.update (str_dep dep) dep al) al xs) =
     fst ` set al \<union> str_dep ` set xs"
  by (induction xs arbitrary: al) (auto simp: dom_update)

lemma update_entries:
  "(k', v') \<in> set (AList.update k v al) \<Longrightarrow> (k', v') = (k, v) \<or> (k', v') \<in> set al"
  by (induction al) (auto split: if_splits)

lemma by_str_fold_entries:
  "(k, v) \<in> set (foldl (\<lambda>al dep. AList.update (str_dep dep) dep al) al xs) \<Longrightarrow>
     (k, v) \<in> set al \<or> (v \<in> set xs \<and> str_dep v = k)"
proof (induction xs arbitrary: al)
  case Nil
  then show ?case by simp
next
  case (Cons x xs)
  from Cons.IH[of "AList.update (str_dep x) x al"] Cons.prems
  have "(k, v) \<in> set (AList.update (str_dep x) x al) \<or> (v \<in> set xs \<and> str_dep v = k)"
    by simp
  then show ?case using update_entries[of k v "str_dep x" x al] by auto
qed

lemma by_str_fold_fresh:
  "distinct (map fst al @ map str_dep xs) \<Longrightarrow>
     foldl (\<lambda>al dep. AList.update (str_dep dep) dep al) al xs =
       al @ map (\<lambda>d. (str_dep d, d)) xs"
proof (induction xs arbitrary: al)
  case Nil
  then show ?case by simp
next
  case (Cons x xs)
  from Cons.prems have fresh: "str_dep x \<notin> fst ` set al" by auto
  from Cons.prems have "distinct (map fst (al @ [(str_dep x, x)]) @ map str_dep xs)" by auto
  from Cons.IH[OF this] show ?case by (simp add: update_fresh[OF fresh])
qed

lemma deps_by_str_distinct: "distinct (map fst (deps_by_str xs))"
  unfolding deps_by_str_def by (rule by_str_fold_distinct) simp

lemma deps_by_str_keys: "fst ` set (deps_by_str xs) = str_dep ` set xs"
  unfolding deps_by_str_def by (simp add: by_str_fold_keys)

lemma deps_by_str_entries: "(k, v) \<in> set (deps_by_str xs) \<Longrightarrow> v \<in> set xs \<and> str_dep v = k"
  unfolding deps_by_str_def using by_str_fold_entries[of k v "[]" xs] by simp

lemma deps_by_str_of_distinct:
  "distinct (map str_dep xs) \<Longrightarrow> deps_by_str xs = map (\<lambda>d. (str_dep d, d)) xs"
  unfolding deps_by_str_def using by_str_fold_fresh[of "[]" xs] by simp

lemma delete_keys_set: "fst ` set (AList.delete k al) = fst ` set al - {k}"
  by (induction al) auto

lemma pop_or_create_remaining:
  "snd (pop_or_create items cur) = filter (\<lambda>(k, v). k \<notin> fst ` set items) cur"
proof (induction items arbitrary: cur)
  case Nil
  then show ?case by simp
next
  case (Cons item items)
  obtain k v where item: "item = (k, v)" by (cases item)
  show ?case
  proof (cases "k \<in> fst ` set cur")
    case True
    have "filter (\<lambda>(k', v). k' \<notin> fst ` set items) (AList.delete k cur) =
            filter (\<lambda>(k', v). k' \<notin> fst ` set (item # items)) cur"
      unfolding AList.delete_eq item by (induction cur) auto
    with True Cons.IH[of "AList.delete k cur"] show ?thesis by (simp add: item)
  next
    case False
    have eq: "filter (\<lambda>(k', v). k' \<notin> fst ` set items) cur =
            filter (\<lambda>(k', v). k' \<notin> fst ` set (item # items)) cur"
      using False unfolding item by (induction cur) auto
    obtain tc rem where p: "pop_or_create items cur = (tc, rem)"
      by (cases "pop_or_create items cur")
    with Cons.IH[of cur] have "rem = filter (\<lambda>(k', v). k' \<notin> fst ` set items) cur" by simp
    with False p eq show ?thesis by (simp add: item)
  qed
qed

lemma pop_or_create_to_create:
  "distinct (map fst items) \<Longrightarrow>
     fst (pop_or_create items cur) = map snd (filter (\<lambda>(k, v). k \<notin> fst ` set cur) items)"
proof (induction items arbitrary: cur)
  case Nil
  then show ?case by simp
next
  case (Cons item items)
  obtain k v where item: "item = (k, v)" by (cases item)
  from Cons.prems have d: "distinct (map fst items)" and k: "k \<notin> fst ` set items"
    by (auto simp: item)
  show ?case
  proof (cases "k \<in> fst ` set cur")
    case True
    have "filter (\<lambda>(k', v). k' \<notin> fst ` set (AList.delete k cur)) items =
            filter (\<lambda>(k', v). k' \<notin> fst ` set cur) items"
      using k by (intro filter_cong) (force simp: delete_keys_set)+
    with True Cons.IH[OF d, of "AList.delete k cur"] show ?thesis by (simp add: item)
  next
    case False
    obtain tc rem where p: "pop_or_create items cur = (tc, rem)"
      by (cases "pop_or_create items cur")
    with Cons.IH[OF d, of cur]
    have "tc = map snd (filter (\<lambda>(k, v). k \<notin> fst ` set cur) items)" by simp
    with False p show ?thesis by (simp add: item)
  qed
qed

lemma str_dep_dep_id [simp]: "str_dep (d\<lparr>dep_id := i\<rparr>) = str_dep d"
  by (simp add: str_dep_def split: option.splits)

lemma str_dep_dependency: "str_dep a = str_dep b \<Longrightarrow> dependency a = dependency b"
  by (auto simp: str_dep_def split: option.splits)

lemma str_dep_dependant: "str_dep a = str_dep b \<Longrightarrow> dependant a = dependant b"
  by (auto simp: str_dep_def split: option.splits)

lemma construct_dependency_dependant:
  "construct_dependency fi d cache = Inr deps \<Longrightarrow> e \<in> set deps \<Longrightarrow> dependant e = field_id fi"
  by (cases d) (auto simp: FieldDependency_def split: if_splits option.splits field_kind.splits)

lemma construct_all_dependant:
  "construct_all fi ds cache = Inr deps \<Longrightarrow> e \<in> set deps \<Longrightarrow> dependant e = field_id fi"
proof (induction ds arbitrary: deps)
  case Nil
  then show ?case by simp
next
  case (Cons d ds)
  then show ?case
    by (auto split: sum.splits dest: construct_dependency_dependant)
qed


lemma construct_new_dependant:
  "construct_new_dependencies fd fi cache = Inr deps \<Longrightarrow> e \<in> set deps \<Longrightarrow>
     dependant e = field_id fi"
  by (auto simp: construct_new_dependencies_def split: option.splits
           dest: construct_all_dependant)

lemma pop_or_create_eq:
  "pop_or_create (deps_by_str new) (deps_by_str cur) =
     (map snd (filter (\<lambda>(k, v). k \<notin> str_dep ` set cur) (deps_by_str new)),
      filter (\<lambda>(k, v). k \<notin> str_dep ` set new) (deps_by_str cur))"
  using pop_or_create_to_create[OF deps_by_str_distinct, of new "deps_by_str cur"]
        pop_or_create_remaining[of "deps_by_str new" "deps_by_str cur"]
  by (simp add: deps_by_str_keys prod_eq_iff)

lemma diff_and_persist_eq:
  "diff_and_persist circ fi new db =
     (if list_ex (causes_circular circ (dependency_rows db) (field_id fi))
           (to_create new (current_dependencies fi db))
      then (Inl CircularFieldDependencyError, db)
      else (Inr (),
            delete_by_pk (delete_ids new (current_dependencies fi db))
              (bulk_create (to_create new (current_dependencies fi db)) db)))"
  by (simp add: diff_and_persist_def pop_or_create_eq to_create_def delete_ids_def)

lemma to_create_mem:
  "v \<in> set (to_create new cur) \<Longrightarrow> v \<in> set new \<and> str_dep v \<notin> str_dep ` set cur"
  by (auto simp: to_create_def dest: deps_by_str_entries)

lemma to_create_keys: "str_dep ` set (to_create new cur) = str_dep ` set new - str_dep ` set cur"
proof
  show "str_dep ` set (to_create new cur) \<subseteq> str_dep ` set new - str_dep ` set cur"
    by (auto dest: to_create_mem)
next
  show "str_dep ` set new - str_dep ` set cur \<subseteq> str_dep ` set (to_create new cur)"
  proof
    fix k assume k: "k \<in> str_dep ` set new - str_dep ` set cur"
    then have "k \<in> fst ` set (deps_by_str new)" by (simp add: deps_by_str_keys)
    then obtain v where kv: "(k, v) \<in> set (deps_by_str new)" by auto
    with k have "v \<in> set (to_create new cur)" by (force simp: to_create_def)
    moreover from kv have "str_dep v = k" by (simp add: deps_by_str_entries)
    ultimately show "k \<in> str_dep ` set (to_create new cur)" by blast
  qed
qed

lemma to_create_str: "map str_dep (to_create new cur) =
   map fst (filter (\<lambda>(k, v). k \<notin> str_dep ` set cur) (deps_by_str new))"
  unfolding to_create_def map_map
  by (rule map_cong) (auto dest: deps_by_str_entries)

lemma to_create_distinct: "distinct (map str_dep (to_create new cur))"
  unfolding to_create_str by (rule distinct_map_filter) (rule deps_by_str_distinct)

lemma delete_ids_of_distinct:
  "distinct (map str_dep cur) \<Longrightarrow>
     delete_ids new cur = map dep_id (filter (\<lambda>d. str_dep d \<notin> str_dep ` set new) cur)"
  by (simp add: delete_ids_def deps_by_str_of_distinct filter_map comp_def)

lemma delete_ids_subset: "set (delete_ids new cur) \<subseteq> dep_id ` set cur"
  by (auto simp: delete_ids_def dest: deps_by_str_entries)

lemma map_snd_zip_upt:
  "map (\<lambda>(i, obj). f obj) (zip [0..<length objs] objs) = map f (objs :: 'b list)"
proof -
  have a: "map snd (zip [0..<length objs] objs) = objs" by simp
  have b: "map (\<lambda>(i, obj). f obj) zs = map f (map snd zs)" for zs :: "(nat \<times> 'b) list"
    by (induction zs) auto
  show ?thesis unfolding b a ..
qed

lemma created_rows_str: "map str_dep (created_rows n objs) = map str_dep objs"
  unfolding created_rows_def map_map comp_def
  using map_snd_zip_upt[of str_dep objs] by (simp add: case_prod_unfold)

lemma created_rows_dependant: "map dependant (created_rows n objs) = map dependant objs"
  unfolding created_rows_def map_map comp_def
  using map_snd_zip_upt[of dependant objs] by (simp add: case_prod_unfold)

lemma created_rows_dependency: "map dependency (created_rows n objs) = map dependency objs"
  unfolding created_rows_def map_map comp_def
  using map_snd_zip_upt[of dependency objs] by (simp add: case_prod_unfold)

lemma created_rows_id: "r \<in> set (created_rows n objs) \<Longrightarrow> \<exists>i\<ge>n. dep_id r = Some i"
  by (auto simp: created_rows_def)

lemma persisted_rows:
  "dependency_rows (delete_by_pk ids (bulk_create objs db)) =
     filter (\<lambda>row. dep_id row \<notin> set ids) (dependency_rows db)
     @ filter (\<lambda>row. dep_id row \<notin> set ids) (created_rows (next_dep_id db) objs)"
  by (simp add: delete_by_pk_def bulk_create_def)


lemma rebuild_outbound:
  assumes nd: "\<forall>e\<in>set new. dependant e = field_id fi"
    and ok: "diff_and_persist circ fi new db = (Inr (), db')"
  shows "current_dependencies fi db' =
           filter (\<lambda>r. dep_id r \<notin> set (delete_ids new (current_dependencies fi db)))
             (current_dependencies fi db)
           @ filter (\<lambda>r. dep_id r \<notin> set (delete_ids new (current_dependencies fi db)))
               (created_rows (next_dep_id db) (to_create new (current_dependencies fi db)))"
proof -
  let ?cur = "current_dependencies fi db"
  let ?cr = "created_rows (next_dep_id db) (to_create new ?cur)"
  from ok have db': "db' = delete_by_pk (delete_ids new ?cur) (bulk_create (to_create new ?cur) db)"
    by (simp add: diff_and_persist_eq split: if_splits)
  have "\<forall>r\<in>set ?cr. dependant r = field_id fi"
  proof
    fix r assume "r \<in> set ?cr"
    then have "dependant r \<in> set (map dependant ?cr)" by simp
    then have "dependant r \<in> dependant ` set (to_create new ?cur)"
      by (simp only: created_rows_dependant set_map)
    with nd show "dependant r = field_id fi" by (auto dest: to_create_mem)
  qed
  then have "filter (\<lambda>d. dependant d = field_id fi) ?cr = ?cr" by (simp add: filter_id_conv)
  then have "filter (\<lambda>d. dependant d = field_id fi)
               (filter (\<lambda>r. dep_id r \<notin> set (delete_ids new ?cur)) ?cr) =
             filter (\<lambda>r. dep_id r \<notin> set (delete_ids new ?cur)) ?cr"
    by (metis (mono_tags, lifting) filter_cong filter_filter)
  moreover have "filter (\<lambda>d. dependant d = field_id fi)
               (filter (\<lambda>r. dep_id r \<notin> set (delete_ids new ?cur)) (dependency_rows db)) =
             filter (\<lambda>r. dep_id r \<notin> set (delete_ids new ?cur)) ?cur"
    unfolding current_dependencies_def filter_filter by (rule filter_cong) auto
  ultimately show ?thesis
    unfolding db' by (simp add: current_dependencies_def[of fi "delete_by_pk _ _"] persisted_rows)
qed

lemma rebuild_distinct:
  assumes nd: "\<forall>e\<in>set new. dependant e = field_id fi"
    and ok: "diff_and_persist circ fi new db = (Inr (), db')"
    and ku: "keys_unique fi db"
  shows "keys_unique fi db'"
proof -
  let ?cur = "current_dependencies fi db"
  let ?tc = "to_create new ?cur"
  let ?cr = "created_rows (next_dep_id db) ?tc"
  let ?p = "\<lambda>r. dep_id r \<notin> set (delete_ids new ?cur)"
  have a: "distinct (map str_dep (filter ?p ?cur))"
    using ku unfolding keys_unique_def by (rule distinct_map_filter)
  have "distinct (map str_dep ?cr)"
    unfolding created_rows_str by (rule to_create_distinct)
  then have b: "distinct (map str_dep (filter ?p ?cr))" by (rule distinct_map_filter)
  have "str_dep ` set ?cr = str_dep ` set ?tc"
    using created_rows_str[of "next_dep_id db" ?tc] by (metis set_map)
  then have c: "str_dep ` set (filter ?p ?cur) \<inter> str_dep ` set (filter ?p ?cr) = {}"
    using to_create_keys[of new ?cur] by auto
  from a b c show ?thesis
    unfolding keys_unique_def rebuild_outbound[OF nd ok] by simp
qed

lemma rebuild_keys:
  assumes nd: "\<forall>e\<in>set new. dependant e = field_id fi"
    and ok: "diff_and_persist circ fi new db = (Inr (), db')"
    and pk: "primary_keys_ok db"
    and ku: "keys_unique fi db"
  shows "str_dep ` set (current_dependencies fi db') = str_dep ` set new"
proof -
  let ?cur = "current_dependencies fi db"
  let ?tc = "to_create new ?cur"
  let ?cr = "created_rows (next_dep_id db) ?tc"
  let ?D = "set (delete_ids new ?cur)"
  have D: "?D = dep_id ` {d \<in> set ?cur. str_dep d \<notin> str_dep ` set new}"
    using ku by (simp add: keys_unique_def delete_ids_of_distinct)
  have inj: "inj_on dep_id (set (dependency_rows db))"
    using pk by (simp add: primary_keys_ok_def distinct_map)
  have cur_rows: "set ?cur \<subseteq> set (dependency_rows db)"
    by (auto simp: current_dependencies_def)
  have old_ids: "\<forall>r\<in>set (dependency_rows db). \<exists>i<next_dep_id db. dep_id r = Some i"
    using pk by (auto simp: primary_keys_ok_def list_all_iff split: option.splits)
  have k1: "str_dep r \<in> str_dep ` set new" if "r \<in> set ?cur" "dep_id r \<notin> ?D" for r
    using that unfolding D by blast
  have k2: "dep_id r \<notin> ?D" if r: "r \<in> set ?cur" "str_dep r \<in> str_dep ` set new" for r
  proof
    assume "dep_id r \<in> ?D"
    then obtain d where d: "d \<in> set ?cur" "str_dep d \<notin> str_dep ` set new" "dep_id r = dep_id d"
      unfolding D by auto
    with r cur_rows inj have "r = d" by (auto dest: inj_onD)
    with d r show False by auto
  qed
  have kept: "{r \<in> set ?cur. dep_id r \<notin> ?D} = {r \<in> set ?cur. str_dep r \<in> str_dep ` set new}"
    using k1 k2 by blast
  have fresh: "\<forall>r\<in>set ?cr. dep_id r \<notin> ?D"
  proof
    fix r assume "r \<in> set ?cr"
    then obtain i where i: "i \<ge> next_dep_id db" "dep_id r = Some i"
      by (auto dest: created_rows_id)
    show "dep_id r \<notin> ?D"
    proof
      assume "dep_id r \<in> ?D"
      then obtain d where "d \<in> set ?cur" "dep_id d = dep_id r"
        using delete_ids_subset[of new ?cur] by auto
      with cur_rows old_ids i show False by fastforce
    qed
  qed
  then have cr: "filter (\<lambda>r. dep_id r \<notin> ?D) ?cr = ?cr" by (simp add: filter_id_conv)
  have crk: "str_dep ` set ?cr = str_dep ` set new - str_dep ` set ?cur"
    using created_rows_str[of "next_dep_id db" ?tc] to_create_keys[of new ?cur]
    by (metis set_map)
  have "str_dep ` set (current_dependencies fi db') =
          str_dep ` {r \<in> set ?cur. dep_id r \<notin> ?D} \<union> str_dep ` set ?cr"
    unfolding rebuild_outbound[OF nd ok] cr by (simp add: image_Un)
  also have "\<dots> = str_dep ` {r \<in> set ?cur. str_dep r \<in> str_dep ` set new}
                   \<union> (str_dep ` set new - str_dep ` set ?cur)"
    unfolding kept crk ..
  also have "\<dots> = str_dep ` set new"
  proof -
    let ?A = "str_dep ` {r \<in> set ?cur. str_dep r \<in> str_dep ` set new}"
    have "?A = str_dep ` set ?cur \<inter> str_dep ` set new" by blast
    then show ?thesis by blast
  qed
  finally show ?thesis .
qed

lemma diff_and_persist_fixpoint:
  assumes keys: "str_dep ` set (current_dependencies fi db) = str_dep ` set new"
  shows "diff_and_persist circ fi new db = (Inr (), db)"
proof -
  have tc: "to_create new (current_dependencies fi db) = []"
    using to_create_keys[of new "current_dependencies fi db"] keys by simp
  have "filter (\<lambda>(k, v). k \<notin> str_dep ` set new) (deps_by_str (current_dependencies fi db)) = []"
    unfolding filter_empty_conv keys[symmetric]
    using deps_by_str_keys[of "current_dependencies fi db"] by force
  then have del: "delete_ids new (current_dependencies fi db) = []"
    by (simp add: delete_ids_def)
  show ?thesis
    unfolding diff_and_persist_eq tc del
    by (simp add: delete_by_pk_def bulk_create_def created_rows_def)
qed

section \<open>Evaluating the checker and the rebuild on the fixture\<close>

lemma wccd_no_arcs:
  "target \<notin> fst ` set (concat (map dep_arcs rows)) \<Longrightarrow>
     will_cause_circular_dep rows source target = (target = source)"
proof -
  assume no: "target \<notin> fst ` set (concat (map dep_arcs rows))"
  have "target = source" if "(target, source) \<in> (set (concat (map dep_arcs rows)))\<^sup>*"
    using that
  proof (cases rule: converse_rtranclE)
    case base
    then show ?thesis .
  next
    case (step y)
    then have "target \<in> fst ` set (concat (map dep_arcs rows))" by force
    with no show ?thesis by simp
  qed
  then show ?thesis unfolding will_cause_circular_dep_def by auto
qed

lemma wccd_arc:
  "(target, source) \<in> set (concat (map dep_arcs rows)) \<Longrightarrow>
     will_cause_circular_dep rows source target"
  unfolding will_cause_circular_dep_def by (rule r_into_rtrancl)

lemmas rebuild_eval =
  rebuild_field_dependencies_def construct_new_dependencies_def diff_and_persist_def
  deps_by_str_def current_dependencies_def causes_circular_def bulk_create_def
  created_rows_def delete_by_pk_def str_dep_def FieldDependency_def dep_arcs_def


section \<open>No duplicate edges\<close>

lemma rebuild_duplicate_descriptors:
  "rebuild_field_dependencies will_cause_circular_dep
     (Some [FieldName ''l'', ViaField ''l'' ''y'', FieldName ''l'']) field_x fixture_cache
     (fixture_db [edge 3 11 (Some 12) None None] 5) =
   (Inr (), fixture_db [edge 3 11 (Some 12) None None, edge 5 11 (Some 21) (Some 12) None] 6)"
  by (simp add: rebuild_eval fixture_cache_simps fixture_field_simps wccd_no_arcs
        fixture_db_def edge_def upt_rec)


text \<open>
  C9 (as amended). When the field's own rows have pairwise distinct canonical keys before
  a rebuild that succeeds, they have pairwise distinct canonical keys after it, whatever
  duplicates the descriptor list holds.
\<close>

theorem rebuild_keys_unique:
  assumes ku: "keys_unique fi db"
    and ok: "rebuild_field_dependencies circ fd fi cache db = (Inr (), db')"
  shows "keys_unique fi db'"
proof -
  from ok obtain new where new: "construct_new_dependencies fd fi cache = Inr new"
    and ok': "diff_and_persist circ fi new db = (Inr (), db')"
    by (auto simp: rebuild_field_dependencies_def split: sum.splits)
  from new have nd: "\<forall>e\<in>set new. dependant e = field_id fi"
    by (auto dest: construct_new_dependant)
  from nd ok' ku show ?thesis by (rule rebuild_distinct)
qed

theorem rebuild_keys_unique_witness:
  "keys_unique field_x (fixture_db [edge 3 11 (Some 12) None None] 5)
   \<and> keys_unique field_x
        (fixture_db [edge 3 11 (Some 12) None None, edge 5 11 (Some 21) (Some 12) None] 6)"
proof -
  have ku: "keys_unique field_x (fixture_db [edge 3 11 (Some 12) None None] 5)"
    by (simp add: keys_unique_def current_dependencies_def fixture_db_def edge_def)
  from ku rebuild_keys_unique[OF ku rebuild_duplicate_descriptors] show ?thesis by (rule conjI)
qed


text \<open>
  Rows that share a key before the rebuild survive it: the dictionary of current rows
  holds one row for the key, the new dependency pops it, and nothing is deleted.
\<close>

theorem rebuild_keys_unique_counterexample:
  "rebuild_field_dependencies will_cause_circular_dep (Some [FieldName ''l''])
     field_x fixture_cache
     (fixture_db [edge 5 11 (Some 12) None None, edge 6 11 (Some 12) None None] 7) =
   (Inr (), fixture_db [edge 5 11 (Some 12) None None, edge 6 11 (Some 12) None None] 7)
   \<and> \<not> distinct (map str_dep (current_dependencies field_x
         (fixture_db [edge 5 11 (Some 12) None None, edge 6 11 (Some 12) None None] 7)))"
  by (simp add: rebuild_eval fixture_cache_simps fixture_field_simps wccd_no_arcs
        fixture_db_def edge_def upt_rec)


section \<open>Circular references\<close>

text \<open>
  C1. Once the edges are constructed, the rebuild raises \<open>CircularFieldDependencyError\<close>
  and leaves the database as it was exactly when some new edge, one whose key no current
  row of the field has, is resolved and the checker reports a cycle between the field
  and its target; otherwise the rebuild succeeds. An edge without a dependency is never
  handed to the checker.
\<close>

theorem rebuild_circular:
  assumes new: "construct_new_dependencies fd fi cache = Inr new"
  shows "if \<exists>e\<in>set new. str_dep e \<notin> str_dep ` set (current_dependencies fi db)
              \<and> (\<exists>t. dependency e = Some t \<and> circ (dependency_rows db) (field_id fi) t)
         then rebuild_field_dependencies circ fd fi cache db =
                (Inl CircularFieldDependencyError, db)
         else fst (rebuild_field_dependencies circ fd fi cache db) = Inr ()"
proof -
  let ?cur = "current_dependencies fi db"
  let ?bad = "\<lambda>e. \<exists>t. dependency e = Some t \<and> circ (dependency_rows db) (field_id fi) t"
  have cc: "causes_circular circ (dependency_rows db) (field_id fi) e = ?bad e" for e
    by (simp add: causes_circular_def split: option.splits)
  have "list_ex (causes_circular circ (dependency_rows db) (field_id fi)) (to_create new ?cur)
          = (\<exists>e\<in>set new. str_dep e \<notin> str_dep ` set ?cur \<and> ?bad e)"
  proof
    assume "list_ex (causes_circular circ (dependency_rows db) (field_id fi)) (to_create new ?cur)"
    then obtain v where "v \<in> set (to_create new ?cur)" "?bad v"
      by (auto simp: list_ex_iff cc)
    then show "\<exists>e\<in>set new. str_dep e \<notin> str_dep ` set ?cur \<and> ?bad e"
      using to_create_mem[of v new ?cur] by blast
  next
    assume "\<exists>e\<in>set new. str_dep e \<notin> str_dep ` set ?cur \<and> ?bad e"
    then obtain e where e: "e \<in> set new" "str_dep e \<notin> str_dep ` set ?cur" "?bad e" by blast
    then have "str_dep e \<in> str_dep ` set (to_create new ?cur)"
      by (simp add: to_create_keys)
    then obtain v where v: "v \<in> set (to_create new ?cur)" "str_dep v = str_dep e" by auto
    from v(2) have "dependency v = dependency e" by (rule str_dep_dependency)
    with e(3) have "?bad v" by simp
    with v(1) show "list_ex (causes_circular circ (dependency_rows db) (field_id fi))
                      (to_create new ?cur)"
      by (auto simp: list_ex_iff cc)
  qed
  then show ?thesis
    by (simp add: rebuild_field_dependencies_def new diff_and_persist_eq)
qed

theorem rebuild_circular_witness:
  "construct_new_dependencies (Some [FieldName ''f'']) field_x fixture_cache =
     Inr [\<lparr>dep_id = None, dependant = 11, dependency = Some 14, via = None,
           broken_reference_field_name = None\<rparr>]
   \<and> rebuild_field_dependencies will_cause_circular_dep (Some [FieldName ''f'']) field_x
       fixture_cache (fixture_db [edge 5 14 (Some 11) None None] 6) =
     (Inl CircularFieldDependencyError, fixture_db [edge 5 14 (Some 11) None None] 6)
   \<and> fst (rebuild_field_dependencies (\<lambda>rows source target. True) (Some [FieldName ''m''])
            field_x fixture_cache (fixture_db [edge 5 14 (Some 11) None None] 6)) = Inr ()"
proof -
  have new: "construct_new_dependencies (Some [FieldName ''f'']) field_x fixture_cache =
     Inr [\<lparr>dep_id = None, dependant = 11, dependency = Some 14, via = None,
           broken_reference_field_name = None\<rparr>]"
    by (simp add: construct_new_dependencies_def FieldDependency_def fixture_cache_simps
          fixture_field_simps)
  have circ: "will_cause_circular_dep [edge 5 14 (Some 11) None None] 11 14"
    by (rule wccd_arc) (simp add: dep_arcs_def edge_def)
  have a: "rebuild_field_dependencies will_cause_circular_dep (Some [FieldName ''f'']) field_x
       fixture_cache (fixture_db [edge 5 14 (Some 11) None None] 6) =
     (Inl CircularFieldDependencyError, fixture_db [edge 5 14 (Some 11) None None] 6)"
    using rebuild_circular[OF new, of "fixture_db [edge 5 14 (Some 11) None None] 6"
            will_cause_circular_dep] circ
    by (simp add: current_dependencies_def fixture_db_def edge_def str_dep_def
          fixture_field_simps)
  have broken: "construct_new_dependencies (Some [FieldName ''m'']) field_x fixture_cache =
     Inr [\<lparr>dep_id = None, dependant = 11, dependency = None, via = None,
           broken_reference_field_name = Some ''m''\<rparr>]"
    by (simp add: construct_new_dependencies_def FieldDependency_def fixture_cache_simps
          fixture_field_simps)
  have b: "fst (rebuild_field_dependencies (\<lambda>rows source target. True)
            (Some [FieldName ''m'']) field_x fixture_cache
            (fixture_db [edge 5 14 (Some 11) None None] 6)) = Inr ()"
    using rebuild_circular[OF broken, of "fixture_db [edge 5 14 (Some 11) None None] 6"
            "\<lambda>rows source target. True"]
    by simp
  from new a b show ?thesis by simp
qed


section \<open>A link-row field\<close>

lemma singleton_of_distinct_keys:
  assumes "distinct (map f xs)" and "f ` set xs = {k}"
  shows "map f xs = [k]"
proof (cases xs)
  case Nil
  with assms(2) show ?thesis by simp
next
  case (Cons x ys)
  with assms(2) have x: "f x = k" by auto
  have "ys = []"
  proof (cases ys)
    case Nil
    then show ?thesis .
  next
    case (Cons y zs)
    with assms(2) \<open>xs = x # ys\<close> have "f y = k" by auto
    with x assms(1) \<open>xs = x # ys\<close> Cons show ?thesis by auto
  qed
  with Cons x show ?thesis by simp
qed

lemma str_dep_resolved:
  "str_dep r = ResolvedKey a b v \<Longrightarrow> dependant r = a \<and> dependency r = Some b \<and> via r = v"
  by (auto simp: str_dep_def split: option.splits)

lemma persisted_rows_subset:
  "set (dependency_rows (delete_by_pk ids (bulk_create objs db))) \<subseteq>
     set (dependency_rows db) \<union> set (created_rows (next_dep_id db) objs)"
  by (auto simp: persisted_rows)

lemma construct_direct_edge_in_own_table:
  assumes "construct_dependency fi d cache = Inr deps" and "e \<in> set deps"
    and "dependency e = Some p" and "via e = None"
  shows "\<exists>n f. cache (field_table fi) n = Some f \<and> field_id f = p"
proof (cases d)
  case (FieldName n)
  with assms have "\<exists>f. cache (field_table fi) n = Some f \<and> field_id f = p"
    by (auto simp: FieldDependency_def split: if_splits option.splits)
  then show ?thesis by blast
next
  case (ViaField vn n)
  with assms have "\<exists>f. cache (field_table fi) vn = Some f \<and> field_id f = p"
    by (auto simp: FieldDependency_def split: if_splits option.splits field_kind.splits)
  then show ?thesis by blast
qed

lemma fixture_link_row_rebuild:
  "rebuild_field_dependencies will_cause_circular_dep (Some [ViaField ''l'' ''y''])
     field_l fixture_cache (fixture_db [] 5) =
   (Inr (), fixture_db [edge 5 12 (Some 21) (Some 12) None] 6)"
  by (simp add: rebuild_eval fixture_cache_simps fixture_field_simps wccd_no_arcs
        fixture_db_def edge_def upt_rec)


text \<open>
  C3 (as amended). A link-row field \<open>L\<close> that links to the table whose primary field is
  \<open>P\<close> has the descriptor \<open>(L's name, P's name)\<close>. Rebuilding it leaves exactly one edge
  whose dependant is \<open>L\<close>: it is resolved, its dependency is \<open>P\<close> and its via is \<open>L\<close>
  itself. When no row depended on \<open>L\<close> before, none does after.
\<close>

theorem rebuild_link_row_field:
  assumes kind: "field_kind L = LinkRowField t2"
    and self: "cache (field_table L) (field_name L) = Some L"
    and prim: "cache t2 (field_name P) = Some P"
    and neq: "field_id P \<noteq> field_id L"
    and nocirc: "\<not> circ (dependency_rows db) (field_id L) (field_id P)"
    and pk: "primary_keys_ok db"
    and ku: "keys_unique L db"
    and nodep: "\<forall>r\<in>set (dependency_rows db). dependency r \<noteq> Some (field_id L)"
  shows "fst (rebuild_field_dependencies circ (Some [ViaField (field_name L) (field_name P)])
                L cache db) = Inr ()
    \<and> map (\<lambda>r. (dependant r, dependency r, via r))
         (current_dependencies L
            (snd (rebuild_field_dependencies circ
                    (Some [ViaField (field_name L) (field_name P)]) L cache db))) =
       [(field_id L, Some (field_id P), Some (field_id L))]
    \<and> filter (\<lambda>r. dependency r = Some (field_id L))
         (dependency_rows
            (snd (rebuild_field_dependencies circ
                    (Some [ViaField (field_name L) (field_name P)]) L cache db))) = []"
proof -
  let ?fd = "Some [ViaField (field_name L) (field_name P)]"
  let ?e = "FieldDependency (field_id L) (Some (field_id P)) (Some (field_id L)) None"
  let ?cur = "current_dependencies L db"
  have new: "construct_new_dependencies ?fd L cache = Inr [?e]"
    by (simp add: construct_new_dependencies_def self kind prim)
  have key: "str_dep ?e = ResolvedKey (field_id L) (field_id P) (Some (field_id L))"
    by (simp add: str_dep_def FieldDependency_def)
  have nd: "\<forall>e\<in>set [?e]. dependant e = field_id L" by (simp add: FieldDependency_def)
  have tc: "set (to_create [?e] ?cur) \<subseteq> {?e}"
    using to_create_mem[of _ "[?e]" ?cur] by auto
  have "\<not> list_ex (causes_circular circ (dependency_rows db) (field_id L)) (to_create [?e] ?cur)"
  proof
    assume "list_ex (causes_circular circ (dependency_rows db) (field_id L)) (to_create [?e] ?cur)"
    then obtain v where "v \<in> set (to_create [?e] ?cur)"
      "causes_circular circ (dependency_rows db) (field_id L) v"
      by (auto simp: list_ex_iff)
    with tc have "causes_circular circ (dependency_rows db) (field_id L) ?e" by auto
    with nocirc show False by (simp add: causes_circular_def FieldDependency_def)
  qed
  then obtain db' where ok: "diff_and_persist circ L [?e] db = (Inr (), db')"
    and db': "db' = delete_by_pk (delete_ids [?e] ?cur) (bulk_create (to_create [?e] ?cur) db)"
    by (simp add: diff_and_persist_eq)
  have res: "rebuild_field_dependencies circ ?fd L cache db = (Inr (), db')"
    by (simp add: rebuild_field_dependencies_def new ok)
  have "str_dep ` set (current_dependencies L db') = {str_dep ?e}"
    using rebuild_keys[OF nd ok pk ku] by simp
  moreover have "distinct (map str_dep (current_dependencies L db'))"
    using rebuild_distinct[OF nd ok ku] by (simp add: keys_unique_def)
  ultimately have keys: "map str_dep (current_dependencies L db') = [str_dep ?e]"
    by (rule singleton_of_distinct_keys[rotated])
  then obtain r where r: "current_dependencies L db' = [r]" and "str_dep r = str_dep ?e"
    by (cases "current_dependencies L db'") auto
  with key have "dependant r = field_id L \<and> dependency r = Some (field_id P)
      \<and> via r = Some (field_id L)"
    by (simp add: str_dep_resolved)
  with r have one: "map (\<lambda>r. (dependant r, dependency r, via r)) (current_dependencies L db') =
       [(field_id L, Some (field_id P), Some (field_id L))]"
    by simp
  have "dependency r \<noteq> Some (field_id L)" if "r \<in> set (dependency_rows db')" for r
  proof -
    from that persisted_rows_subset[of "delete_ids [?e] ?cur" "to_create [?e] ?cur" db]
    consider "r \<in> set (dependency_rows db)"
      | "r \<in> set (created_rows (next_dep_id db) (to_create [?e] ?cur))"
      unfolding db' by blast
    then show ?thesis
    proof cases
      case 1
      with nodep show ?thesis by simp
    next
      case 2
      then have "dependency r \<in> set (map dependency (created_rows (next_dep_id db)
                   (to_create [?e] ?cur)))"
        by simp
      then have "dependency r \<in> dependency ` set (to_create [?e] ?cur)"
        by (simp only: created_rows_dependency set_map)
      with tc have "dependency r = Some (field_id P)" by (auto simp: FieldDependency_def)
      with neq show ?thesis by simp
    qed
  qed
  then have none: "filter (\<lambda>r. dependency r = Some (field_id L)) (dependency_rows db') = []"
    by (simp add: filter_empty_conv)
  from res one none show ?thesis by simp
qed

theorem rebuild_link_row_field_witness:
  "fst (rebuild_field_dependencies will_cause_circular_dep (Some [ViaField ''l'' ''y''])
          field_l fixture_cache (fixture_db [] 5)) = Inr ()
   \<and> map (\<lambda>r. (dependant r, dependency r, via r))
       (current_dependencies field_l
          (snd (rebuild_field_dependencies will_cause_circular_dep
                  (Some [ViaField ''l'' ''y'']) field_l fixture_cache (fixture_db [] 5)))) =
     [(12, Some 21, Some 12)]
   \<and> filter (\<lambda>r. dependency r = Some 12)
       (dependency_rows
          (snd (rebuild_field_dependencies will_cause_circular_dep
                  (Some [ViaField ''l'' ''y'']) field_l fixture_cache (fixture_db [] 5)))) = []"
proof -
  have kind: "field_kind field_l = LinkRowField 20" by (simp add: fixture_field_simps)
  have self: "fixture_cache (field_table field_l) (field_name field_l) = Some field_l"
    by (simp add: fixture_field_simps fixture_cache_simps)
  have prim: "fixture_cache 20 (field_name field_y) = Some field_y"
    by (simp add: fixture_field_simps fixture_cache_simps)
  have neq: "field_id field_y \<noteq> field_id field_l" by (simp add: fixture_field_simps)
  have nocirc: "\<not> will_cause_circular_dep (dependency_rows (fixture_db [] 5))
                   (field_id field_l) (field_id field_y)"
    by (simp add: wccd_no_arcs fixture_db_def fixture_field_simps)
  have pk: "primary_keys_ok (fixture_db [] 5)"
    by (simp add: primary_keys_ok_def fixture_db_def)
  have ku: "keys_unique field_l (fixture_db [] 5)"
    by (simp add: keys_unique_def current_dependencies_def fixture_db_def)
  have nodep: "\<forall>r\<in>set (dependency_rows (fixture_db [] 5)).
                 dependency r \<noteq> Some (field_id field_l)"
    by (simp add: fixture_db_def)
  from rebuild_link_row_field
         [where L = field_l and P = field_y and ?t2.0 = 20 and cache = fixture_cache
            and circ = will_cause_circular_dep and db = "fixture_db [] 5",
          OF kind self prim neq nocirc pk ku nodep]
  show ?thesis by (simp add: fixture_field_simps)
qed


text \<open>
  The edge never has a null via: on the fixture no row from \<open>l\<close> to \<open>y\<close> without a via
  exists after the rebuild. By \<open>construct_direct_edge_in_own_table\<close> no descriptor at all
  yields an edge without a via to a field outside the dependant's table.
\<close>

theorem rebuild_link_row_field_counterexample:
  "\<not> list_ex (\<lambda>r. dependant r = 12 \<and> dependency r = Some 21 \<and> via r = None)
       (dependency_rows
          (snd (rebuild_field_dependencies will_cause_circular_dep
                  (Some [ViaField ''l'' ''y'']) field_l fixture_cache (fixture_db [] 5))))"
  by (simp only: fixture_link_row_rebuild snd_conv) (simp add: fixture_db_def edge_def)


section \<open>Lemmas about breaking and repairing\<close>

lemma break_rows:
  "dependency_rows (break_dependencies_for_field F db) =
     map (\<lambda>d. if via d = Some (field_id F) \<and> is_link_row F
              then d\<lparr>dependency := None,
                     broken_reference_field_name := Some (field_name F), via := None\<rparr>
              else if dependency d = Some (field_id F)
              then d\<lparr>dependency := None,
                     broken_reference_field_name := Some (field_name F)\<rparr>
              else d)
       (filter (\<lambda>d. dependant d \<noteq> field_id F) (dependency_rows db))"
  by (simp add: break_dependencies_for_field_def Let_def)

lemma break_dep_ids:
  "map dep_id (dependency_rows (break_dependencies_for_field F db)) =
     map dep_id (filter (\<lambda>d. dependant d \<noteq> field_id F) (dependency_rows db))"
  unfolding break_rows map_map by (rule map_cong) auto

lemma break_distinct:
  "distinct (map dep_id (dependency_rows db)) \<Longrightarrow>
     distinct (map dep_id (dependency_rows (break_dependencies_for_field F db)))"
  unfolding break_dep_ids by (rule distinct_map_filter)

lemma break_field_rows [simp]:
  "field_rows (break_dependencies_for_field F db) = field_rows db"
  by (simp add: break_dependencies_for_field_def Let_def)

lemma get_field_break [simp]:
  "get_field (break_dependencies_for_field F db) i = get_field db i"
  by (simp add: get_field_def)

lemma collect_updated_deps_eq:
  "collect_updated_deps circ rows field deps =
     map (\<lambda>dep. dep\<lparr>dependency := Some (field_id field),
                     broken_reference_field_name := None\<rparr>)
       (filter (\<lambda>dep. \<not> circ rows (dependant dep) (field_id field)) deps)"
  by (induction deps) auto

lemma find_by_pk:
  assumes "distinct (map dep_id rows)" and "r \<in> set rows"
    and "\<And>d. dep_id (u d) = dep_id d"
  shows "find (\<lambda>obj. dep_id obj = dep_id r) (map u (filter P rows)) =
           (if P r then Some (u r) else None)"
  using assms(1,2)
proof (induction rows)
  case Nil
  then show ?case by simp
next
  case (Cons x xs)
  show ?case
  proof (cases "r = x")
    case True
    from Cons.prems have "dep_id x \<notin> dep_id ` set xs" by simp
    then have "\<forall>d\<in>set xs. dep_id d \<noteq> dep_id x" by (metis imageI)
    then have "find (\<lambda>obj. dep_id obj = dep_id x) (map u (filter P xs)) = None"
      by (simp add: find_None_iff assms(3))
    with True show ?thesis by (simp add: assms(3))
  next
    case False
    with Cons.prems have r: "r \<in> set xs" and "dep_id x \<noteq> dep_id r" by auto
    with Cons.IH Cons.prems show ?thesis by (simp add: assms(3))
  qed
qed

lemma repair_rows:
  assumes "distinct (map dep_id rows)"
  shows "bulk_update (collect_updated_deps circ rows0 field (filter Q rows)) rows =
     map (\<lambda>d. if Q d \<and> \<not> circ rows0 (dependant d) (field_id field)
              then d\<lparr>dependency := Some (field_id field),
                     broken_reference_field_name := None\<rparr>
              else d) rows"
proof -
  let ?u = "\<lambda>dep. dep\<lparr>dependency := Some (field_id field),
                        broken_reference_field_name := None\<rparr>"
  let ?P = "\<lambda>d. Q d \<and> \<not> circ rows0 (dependant d) (field_id field)"
  have objs: "collect_updated_deps circ rows0 field (filter Q rows) = map ?u (filter ?P rows)"
    by (simp add: collect_updated_deps_eq conj_commute)
  show ?thesis
    unfolding bulk_update_def objs
  proof (rule map_cong[OF refl])
    fix r assume "r \<in> set rows"
    with assms have "find (\<lambda>obj. dep_id obj = dep_id r) (map ?u (filter ?P rows)) =
                       (if ?P r then Some (?u r) else None)"
      by (intro find_by_pk) simp_all
    then show "(case find (\<lambda>obj. dep_id obj = dep_id r) (map ?u (filter ?P rows)) of
                  None \<Rightarrow> r
                | Some obj \<Rightarrow> r\<lparr>dependency := dependency obj,
                       broken_reference_field_name := broken_reference_field_name obj\<rparr>) =
               (if ?P r then ?u r else r)"
      by simp
  qed
qed

lemma repair_eq:
  assumes "distinct (map dep_id (dependency_rows db))"
  shows "update_fields_with_broken_references circ field db =
     (\<exists>d\<in>set (dependency_rows db).
         fixed_by_fields_name db field d
         \<and> \<not> circ (dependency_rows db) (dependant d) (field_id field),
      db\<lparr>dependency_rows :=
           map (\<lambda>d. if fixed_by_fields_name db field d
                        \<and> \<not> circ (dependency_rows db) (dependant d) (field_id field)
                    then d\<lparr>dependency := Some (field_id field),
                           broken_reference_field_name := None\<rparr>
                    else d) (dependency_rows db)\<rparr>)"
proof -
  have "(0 < length (collect_updated_deps circ (dependency_rows db) field
                (filter (fixed_by_fields_name db field) (dependency_rows db)))) =
        (\<exists>d\<in>set (dependency_rows db).
           fixed_by_fields_name db field d
           \<and> \<not> circ (dependency_rows db) (dependant d) (field_id field))"
    by (auto simp: collect_updated_deps_eq filter_empty_conv)
  then show ?thesis
    by (simp add: update_fields_with_broken_references_def Let_def repair_rows[OF assms])
qed

lemma fixture_get_field:
  "get_field (fixture_db rows n) 11 = Some field_x"
  "get_field (fixture_db rows n) 12 = Some field_l"
  "get_field (fixture_db rows n) 21 = Some field_y"
  "get_field (fixture_db rows n) 14 = Some field_f"
  by (simp_all add: get_field_def fixture_defs)

lemmas repair_eval =
  dependant_table_is_def via_link_row_table_is_def fixture_get_field fixture_field_simps
  wccd_no_arcs dep_arcs_def


section \<open>Breaking the references to a field\<close>

text \<open>
  C4. \<open>break_dependencies_for_field\<close> deletes every row whose dependant is the field;
  of the rows that stay, each one whose via is the field gets dependency null, via null
  and the field's name as its broken reference, and each one whose dependency is the
  field gets dependency null and the field's name. No table is consulted, and no row
  refers to the field afterwards. The via column is a foreign key to \<open>LinkRowField\<close>, so
  a field that some row has as its via is a link-row field.
\<close>

theorem break_dependencies_all:
  assumes fk: "\<forall>d\<in>set (dependency_rows db). via d = Some (field_id F) \<longrightarrow> is_link_row F"
  shows "dependency_rows (break_dependencies_for_field F db) =
           map (\<lambda>d. if via d = Some (field_id F)
                    then d\<lparr>dependency := None,
                           broken_reference_field_name := Some (field_name F), via := None\<rparr>
                    else if dependency d = Some (field_id F)
                    then d\<lparr>dependency := None,
                           broken_reference_field_name := Some (field_name F)\<rparr>
                    else d)
             (filter (\<lambda>d. dependant d \<noteq> field_id F) (dependency_rows db))
    \<and> (\<forall>d\<in>set (dependency_rows (break_dependencies_for_field F db)).
          dependant d \<noteq> field_id F \<and> dependency d \<noteq> Some (field_id F)
          \<and> via d \<noteq> Some (field_id F))"
proof -
  have eq: "dependency_rows (break_dependencies_for_field F db) =
           map (\<lambda>d. if via d = Some (field_id F)
                    then d\<lparr>dependency := None,
                           broken_reference_field_name := Some (field_name F), via := None\<rparr>
                    else if dependency d = Some (field_id F)
                    then d\<lparr>dependency := None,
                           broken_reference_field_name := Some (field_name F)\<rparr>
                    else d)
             (filter (\<lambda>d. dependant d \<noteq> field_id F) (dependency_rows db))"
    unfolding break_rows using fk by (intro map_cong) auto
  have "\<forall>d\<in>set (dependency_rows (break_dependencies_for_field F db)).
          dependant d \<noteq> field_id F \<and> dependency d \<noteq> Some (field_id F)
          \<and> via d \<noteq> Some (field_id F)"
    unfolding eq by auto
  with eq show ?thesis by (rule conjI)
qed

theorem break_dependencies_all_witness:
  "dependency_rows
     (break_dependencies_for_field field_l
        (fixture_db [edge 1 12 (Some 21) (Some 12) None, edge 2 11 (Some 21) (Some 12) None,
                     edge 3 11 (Some 12) None None, edge 4 21 (Some 12) None None,
                     edge 5 14 (Some 11) None None] 6)) =
   [edge 2 11 None None (Some ''l''), edge 3 11 None None (Some ''l''),
    edge 4 21 None None (Some ''l''), edge 5 14 (Some 11) None None]"
proof -
  have "is_link_row field_l" by (simp add: is_link_row_def fixture_field_simps)
  then have fk: "\<forall>d\<in>set (dependency_rows
        (fixture_db [edge 1 12 (Some 21) (Some 12) None, edge 2 11 (Some 21) (Some 12) None,
                     edge 3 11 (Some 12) None None, edge 4 21 (Some 12) None None,
                     edge 5 14 (Some 11) None None] 6)).
      via d = Some (field_id field_l) \<longrightarrow> is_link_row field_l"
    by simp
  from break_dependencies_all[OF fk] show ?thesis
    by (simp add: fixture_db_def edge_def fixture_field_simps)
qed


section \<open>Repairing broken references\<close>

text \<open>
  C5. With unique primary keys, \<open>update_fields_with_broken_references\<close> sets the
  dependency to the field and clears the broken reference of exactly the rows whose
  broken reference is the field's name, that are in scope (the dependant is in the
  field's table, or the via links to the field's table) and for which the checker
  reports no cycle between the dependant and the field; every other row is left as it
  was, no exception is raised, and the result is true exactly when some row was
  repaired.
\<close>

theorem update_broken_references_exact:
  assumes "distinct (map dep_id (dependency_rows db))"
  shows "update_fields_with_broken_references circ field db =
     (\<exists>d\<in>set (dependency_rows db).
         broken_reference_field_name d = Some (field_name field)
         \<and> (dependant_table_is db d (field_table field)
            \<or> via_link_row_table_is db d (field_table field))
         \<and> \<not> circ (dependency_rows db) (dependant d) (field_id field),
      db\<lparr>dependency_rows :=
           map (\<lambda>d. if broken_reference_field_name d = Some (field_name field)
                        \<and> (dependant_table_is db d (field_table field)
                           \<or> via_link_row_table_is db d (field_table field))
                        \<and> \<not> circ (dependency_rows db) (dependant d) (field_id field)
                    then d\<lparr>dependency := Some (field_id field),
                           broken_reference_field_name := None\<rparr>
                    else d) (dependency_rows db)\<rparr>)"
proof -
  have "fixed_by_fields_name db field d =
          (broken_reference_field_name d = Some (field_name field)
           \<and> (dependant_table_is db d (field_table field)
              \<or> via_link_row_table_is db d (field_table field)))" for d
    by (auto simp: fixed_by_fields_name_def)
  then show ?thesis by (simp add: repair_eq[OF assms])
qed

theorem update_broken_references_exact_witness:
  "update_fields_with_broken_references will_cause_circular_dep field_y
     (fixture_db [edge 2 11 None (Some 12) (Some ''y''), edge 3 14 None None (Some ''y''),
                  edge 4 21 None None (Some ''y'')] 6) =
   (True,
    fixture_db [edge 2 11 (Some 21) (Some 12) None, edge 3 14 None None (Some ''y''),
                edge 4 21 None None (Some ''y'')] 6)"
proof -
  have d: "distinct (map dep_id (dependency_rows
     (fixture_db [edge 2 11 None (Some 12) (Some ''y''), edge 3 14 None None (Some ''y''),
                  edge 4 21 None None (Some ''y'')] 6)))"
    by (simp add: fixture_db_def edge_def)
  have rows: "dependency_rows (fixture_db rows n) = rows" for rows n
    by (simp add: fixture_db_def)
  show ?thesis
    unfolding update_broken_references_exact[OF d] rows
    by (simp add: repair_eval edge_def) (simp add: fixture_db_def)
qed


text \<open>
  C10. A row whose via is null is repaired only through the match on the dependant's
  table: it is repaired exactly when its broken reference is the field's name, its
  dependant is in the field's table and the checker reports no cycle; the match on the
  via's linked table never holds for it.
\<close>

theorem null_via_repaired_by_dependant_table:
  assumes pk: "distinct (map dep_id (dependency_rows db))"
    and i: "i < length (dependency_rows db)"
    and nv: "via (dependency_rows db ! i) = None"
  shows "dependency_rows (snd (update_fields_with_broken_references circ field db)) ! i =
           (if broken_reference_field_name (dependency_rows db ! i) = Some (field_name field)
               \<and> dependant_table_is db (dependency_rows db ! i) (field_table field)
               \<and> \<not> circ (dependency_rows db) (dependant (dependency_rows db ! i))
                     (field_id field)
            then (dependency_rows db ! i)\<lparr>dependency := Some (field_id field),
                                           broken_reference_field_name := None\<rparr>
            else dependency_rows db ! i)
    \<and> \<not> via_link_row_table_is db (dependency_rows db ! i) t"
proof -
  have nomatch: "\<not> via_link_row_table_is db (dependency_rows db ! i) t" for t
    using nv by (simp add: via_link_row_table_is_def)
  then have "fixed_by_fields_name db field (dependency_rows db ! i) =
          (broken_reference_field_name (dependency_rows db ! i) = Some (field_name field)
           \<and> dependant_table_is db (dependency_rows db ! i) (field_table field))"
    by (auto simp: fixed_by_fields_name_def)
  with i nomatch show ?thesis by (simp add: repair_eq[OF pk] conj_commute)
qed

theorem null_via_repaired_by_dependant_table_witness:
  "dependency_rows
     (snd (update_fields_with_broken_references will_cause_circular_dep field_m
             (fixture_db [edge 3 11 None None (Some ''l'')] 6))) ! 0 =
     edge 3 11 None None (Some ''l'')
   \<and> dependency_rows
       (snd (update_fields_with_broken_references will_cause_circular_dep field_l
               (fixture_db [edge 3 11 None None (Some ''l'')] 6))) ! 0 =
     edge 3 11 (Some 12) None None"
proof -
  let ?db = "fixture_db [edge 3 11 None None (Some ''l'')] 6"
  have pk: "distinct (map dep_id (dependency_rows ?db))"
    by (simp add: fixture_db_def edge_def)
  have i: "0 < length (dependency_rows ?db)" by (simp add: fixture_db_def)
  have nv: "via (dependency_rows ?db ! 0) = None" by (simp add: fixture_db_def edge_def)
  have row: "dependency_rows ?db ! 0 = edge 3 11 None None (Some ''l'')"
    by (simp add: fixture_db_def)
  have rows: "dependency_rows ?db = [edge 3 11 None None (Some ''l'')]"
    by (simp add: fixture_db_def)
  have m: "field_table field_m = 20" "field_name field_m = ''l''" "field_id field_m = 22"
    by (simp_all add: field_m_def)
  from null_via_repaired_by_dependant_table[OF pk i nv, of will_cause_circular_dep field_m]
  have a: "dependency_rows
     (snd (update_fields_with_broken_references will_cause_circular_dep field_m ?db)) ! 0 =
     edge 3 11 None None (Some ''l'')"
    unfolding row by (simp add: repair_eval edge_def m)
  from null_via_repaired_by_dependant_table[OF pk i nv, of will_cause_circular_dep field_l]
  have b: "dependency_rows
     (snd (update_fields_with_broken_references will_cause_circular_dep field_l ?db)) ! 0 =
     edge 3 11 (Some 12) None None"
    unfolding row rows by (simp add: repair_eval edge_def)
  from a b show ?thesis by (rule conjI)
qed


section \<open>Breaking a target and repairing it\<close>

text \<open>
  C7. Let a row go from its dependant through a via \<open>l\<close> to the field \<open>Y\<close>, where \<open>Y\<close> is
  neither the via nor the dependant. Breaking \<open>Y\<close> changes only the dependency and the
  broken reference of that row, so the via stays; every row that does not refer to \<open>Y\<close>
  is left as it was. When a field named like \<open>Y\<close> then appears in the table the via
  links to, and the checker reports no cycle, the repair sets the dependency of the row
  to it and the via is still there.
\<close>

theorem break_target_keeps_via:
  assumes d: "d \<in> set (dependency_rows db)"
    and dep: "dependency d = Some (field_id Y)"
    and v: "via d = Some l" "l \<noteq> field_id Y"
    and own: "dependant d \<noteq> field_id Y"
  shows "d\<lparr>dependency := None, broken_reference_field_name := Some (field_name Y)\<rparr>
           \<in> set (dependency_rows (break_dependencies_for_field Y db))
    \<and> (\<forall>e\<in>set (dependency_rows db).
          dependant e \<noteq> field_id Y \<and> dependency e \<noteq> Some (field_id Y)
            \<and> via e \<noteq> Some (field_id Y)
          \<longrightarrow> e \<in> set (dependency_rows (break_dependencies_for_field Y db)))
    \<and> (distinct (map dep_id (dependency_rows db))
        \<and> field_name Y' = field_name Y
        \<and> get_field db l = Some L \<and> field_kind L = LinkRowField (field_table Y')
        \<and> \<not> circ (dependency_rows (break_dependencies_for_field Y db)) (dependant d)
              (field_id Y')
        \<longrightarrow> d\<lparr>dependency := Some (field_id Y'), broken_reference_field_name := None\<rparr>
              \<in> set (dependency_rows
                       (snd (update_fields_with_broken_references circ Y'
                               (break_dependencies_for_field Y db)))))"
proof -
  let ?db1 = "break_dependencies_for_field Y db"
  let ?d1 = "d\<lparr>dependency := None, broken_reference_field_name := Some (field_name Y)\<rparr>"
  let ?b = "\<lambda>d. if via d = Some (field_id Y) \<and> is_link_row Y
              then d\<lparr>dependency := None,
                     broken_reference_field_name := Some (field_name Y), via := None\<rparr>
              else if dependency d = Some (field_id Y)
              then d\<lparr>dependency := None,
                     broken_reference_field_name := Some (field_name Y)\<rparr>
              else d"
  have rows1: "dependency_rows ?db1 =
                 map ?b (filter (\<lambda>d. dependant d \<noteq> field_id Y) (dependency_rows db))"
    by (rule break_rows)
  from d own have "?b d \<in> set (dependency_rows ?db1)" unfolding rows1 by simp
  moreover from dep v have "?b d = ?d1" by simp
  ultimately have one: "?d1 \<in> set (dependency_rows ?db1)" by simp
  have two: "\<forall>e\<in>set (dependency_rows db).
          dependant e \<noteq> field_id Y \<and> dependency e \<noteq> Some (field_id Y)
            \<and> via e \<noteq> Some (field_id Y)
          \<longrightarrow> e \<in> set (dependency_rows ?db1)"
  proof (intro ballI impI)
    fix e assume e: "e \<in> set (dependency_rows db)"
      and f: "dependant e \<noteq> field_id Y \<and> dependency e \<noteq> Some (field_id Y)
                \<and> via e \<noteq> Some (field_id Y)"
    from e f have "?b e \<in> set (dependency_rows ?db1)" unfolding rows1 by simp
    moreover from f have "?b e = e" by simp
    ultimately show "e \<in> set (dependency_rows ?db1)" by simp
  qed
  have three: "d\<lparr>dependency := Some (field_id Y'), broken_reference_field_name := None\<rparr>
              \<in> set (dependency_rows (snd (update_fields_with_broken_references circ Y' ?db1)))"
    if pk: "distinct (map dep_id (dependency_rows db))"
      and name: "field_name Y' = field_name Y"
      and L: "get_field db l = Some L" "field_kind L = LinkRowField (field_table Y')"
      and nocirc: "\<not> circ (dependency_rows ?db1) (dependant d) (field_id Y')"
  proof -
    let ?r = "\<lambda>d. if fixed_by_fields_name ?db1 Y' d
                        \<and> \<not> circ (dependency_rows ?db1) (dependant d) (field_id Y')
                    then d\<lparr>dependency := Some (field_id Y'),
                           broken_reference_field_name := None\<rparr>
                    else d"
    have rows2: "dependency_rows (snd (update_fields_with_broken_references circ Y' ?db1)) =
                   map ?r (dependency_rows ?db1)"
      by (simp add: repair_eq[OF break_distinct[OF pk]])
    have "fixed_by_fields_name ?db1 Y' ?d1"
      using v L name by (simp add: fixed_by_fields_name_def via_link_row_table_is_def)
    with nocirc have "?r ?d1 =
        d\<lparr>dependency := Some (field_id Y'), broken_reference_field_name := None\<rparr>"
      by simp
    moreover from one have "?r ?d1 \<in> ?r ` set (dependency_rows ?db1)" by (rule imageI)
    ultimately show ?thesis unfolding rows2 set_map by (simp only:)
  qed
  from one two three show ?thesis by blast
qed

theorem break_target_keeps_via_witness:
  "dependency_rows
     (break_dependencies_for_field field_y
        (fixture_db [edge 2 11 (Some 12) None None, edge 3 11 (Some 21) (Some 12) None] 6)) =
     [edge 2 11 (Some 12) None None, edge 3 11 None (Some 12) (Some ''y'')]
   \<and> edge 3 11 None (Some 12) (Some ''y'')
       \<in> set (dependency_rows
                (break_dependencies_for_field field_y
                   (fixture_db [edge 2 11 (Some 12) None None,
                                edge 3 11 (Some 21) (Some 12) None] 6)))
   \<and> edge 2 11 (Some 12) None None
       \<in> set (dependency_rows
                (break_dependencies_for_field field_y
                   (fixture_db [edge 2 11 (Some 12) None None,
                                edge 3 11 (Some 21) (Some 12) None] 6)))
   \<and> edge 3 11 (Some 21) (Some 12) None
       \<in> set (dependency_rows
                (snd (update_fields_with_broken_references will_cause_circular_dep field_y
                        (break_dependencies_for_field field_y
                           (fixture_db [edge 2 11 (Some 12) None None,
                                        edge 3 11 (Some 21) (Some 12) None] 6)))))"
proof -
  let ?db = "fixture_db [edge 2 11 (Some 12) None None, edge 3 11 (Some 21) (Some 12) None] 6"
  let ?d = "edge 3 11 (Some 21) (Some 12) None"
  have rows: "dependency_rows ?db = [edge 2 11 (Some 12) None None, ?d]"
    by (simp add: fixture_db_def)
  have rows1: "dependency_rows (break_dependencies_for_field field_y ?db) =
     [edge 2 11 (Some 12) None None, edge 3 11 None (Some 12) (Some ''y'')]"
    unfolding break_rows rows by (simp add: edge_def fixture_field_simps is_link_row_def)
  have d: "?d \<in> set (dependency_rows ?db)" unfolding rows by simp
  have dep: "dependency ?d = Some (field_id field_y)" by (simp add: edge_def fixture_field_simps)
  have v: "via ?d = Some 12" "12 \<noteq> field_id field_y" by (simp_all add: edge_def fixture_field_simps)
  have own: "dependant ?d \<noteq> field_id field_y" by (simp add: edge_def fixture_field_simps)
  have pk: "distinct (map dep_id (dependency_rows ?db))" unfolding rows by (simp add: edge_def)
  have L: "get_field ?db 12 = Some field_l" "field_kind field_l = LinkRowField (field_table field_y)"
    by (simp_all add: fixture_get_field fixture_field_simps)
  have nocirc: "\<not> will_cause_circular_dep
                    (dependency_rows (break_dependencies_for_field field_y ?db))
                    (dependant ?d) (field_id field_y)"
    unfolding rows1 by (simp add: wccd_no_arcs dep_arcs_def edge_def fixture_field_simps)
  have upd: "?d\<lparr>dependency := None, broken_reference_field_name := Some (field_name field_y)\<rparr> =
               edge 3 11 None (Some 12) (Some ''y'')"
       "?d\<lparr>dependency := Some (field_id field_y), broken_reference_field_name := None\<rparr> = ?d"
    by (simp_all add: edge_def fixture_field_simps)
  have e2: "edge 2 11 (Some 12) None None \<in> set (dependency_rows ?db)"
       "dependant (edge 2 11 (Some 12) None None) \<noteq> field_id field_y
        \<and> dependency (edge 2 11 (Some 12) None None) \<noteq> Some (field_id field_y)
        \<and> via (edge 2 11 (Some 12) None None) \<noteq> Some (field_id field_y)"
    unfolding rows by (simp_all add: edge_def fixture_field_simps)
  from break_target_keeps_via
         [where d = "?d" and db = "?db" and Y = field_y and l = 12 and Y' = field_y
            and L = field_l and circ = will_cause_circular_dep, OF d dep v own]
       pk L nocirc e2 rows1
  show ?thesis unfolding upd by blast
qed


section \<open>Rebuilding twice\<close>

lemma delete_ids_stale:
  assumes st: "distinct (map str_dep (filter (\<lambda>d. str_dep d \<notin> str_dep ` set new) cur))"
  shows "set (delete_ids new cur) =
           dep_id ` {d \<in> set cur. str_dep d \<notin> str_dep ` set new}"
proof (intro equalityI subsetI)
  fix i assume "i \<in> set (delete_ids new cur)"
  then obtain k v where kv: "(k, v) \<in> set (deps_by_str cur)" "k \<notin> str_dep ` set new"
    "i = dep_id v"
    by (auto simp: delete_ids_def)
  from kv(1) have "v \<in> set cur" "str_dep v = k" by (simp_all add: deps_by_str_entries)
  with kv show "i \<in> dep_id ` {d \<in> set cur. str_dep d \<notin> str_dep ` set new}" by blast
next
  fix i assume "i \<in> dep_id ` {d \<in> set cur. str_dep d \<notin> str_dep ` set new}"
  then obtain d where d: "d \<in> set cur" "str_dep d \<notin> str_dep ` set new" "i = dep_id d"
    by auto
  from d(1) have "str_dep d \<in> fst ` set (deps_by_str cur)" by (simp add: deps_by_str_keys)
  then obtain v where kv: "(str_dep d, v) \<in> set (deps_by_str cur)" by auto
  then have v: "v \<in> set cur" "str_dep v = str_dep d" by (simp_all add: deps_by_str_entries)
  from st have inj: "inj_on str_dep {x \<in> set cur. str_dep x \<notin> str_dep ` set new}"
    by (simp add: distinct_map)
  from v d have "v \<in> {x \<in> set cur. str_dep x \<notin> str_dep ` set new}"
    "d \<in> {x \<in> set cur. str_dep x \<notin> str_dep ` set new}"
    by simp_all
  with inj v(2) have "v = d" by (rule inj_onD)
  with kv d show "i \<in> set (delete_ids new cur)" by (force simp: delete_ids_def)
qed

lemma rebuild_keys_stale:
  assumes nd: "\<forall>e\<in>set new. dependant e = field_id fi"
    and ok: "diff_and_persist circ fi new db = (Inr (), db')"
    and pk: "primary_keys_ok db"
    and st: "distinct (map str_dep (filter (\<lambda>d. str_dep d \<notin> str_dep ` set new)
                                     (current_dependencies fi db)))"
  shows "str_dep ` set (current_dependencies fi db') = str_dep ` set new"
proof -
  let ?cur = "current_dependencies fi db"
  let ?tc = "to_create new ?cur"
  let ?cr = "created_rows (next_dep_id db) ?tc"
  let ?D = "set (delete_ids new ?cur)"
  have D: "?D = dep_id ` {d \<in> set ?cur. str_dep d \<notin> str_dep ` set new}"
    using st by (rule delete_ids_stale)
  have inj: "inj_on dep_id (set (dependency_rows db))"
    using pk by (simp add: primary_keys_ok_def distinct_map)
  have cur_rows: "set ?cur \<subseteq> set (dependency_rows db)"
    by (auto simp: current_dependencies_def)
  have old_ids: "\<forall>r\<in>set (dependency_rows db). \<exists>i<next_dep_id db. dep_id r = Some i"
    using pk by (auto simp: primary_keys_ok_def list_all_iff split: option.splits)
  have k1: "str_dep r \<in> str_dep ` set new" if "r \<in> set ?cur" "dep_id r \<notin> ?D" for r
    using that unfolding D by blast
  have k2: "dep_id r \<notin> ?D" if r: "r \<in> set ?cur" "str_dep r \<in> str_dep ` set new" for r
  proof
    assume "dep_id r \<in> ?D"
    then obtain d where d: "d \<in> set ?cur" "str_dep d \<notin> str_dep ` set new" "dep_id r = dep_id d"
      unfolding D by auto
    with r cur_rows inj have "r = d" by (auto dest: inj_onD)
    with d r show False by auto
  qed
  have kept: "{r \<in> set ?cur. dep_id r \<notin> ?D} = {r \<in> set ?cur. str_dep r \<in> str_dep ` set new}"
    using k1 k2 by blast
  have fresh: "\<forall>r\<in>set ?cr. dep_id r \<notin> ?D"
  proof
    fix r assume "r \<in> set ?cr"
    then obtain i where i: "i \<ge> next_dep_id db" "dep_id r = Some i"
      by (auto dest: created_rows_id)
    show "dep_id r \<notin> ?D"
    proof
      assume "dep_id r \<in> ?D"
      then obtain d where "d \<in> set ?cur" "dep_id d = dep_id r"
        using delete_ids_subset[of new ?cur] by auto
      with cur_rows old_ids i show False by fastforce
    qed
  qed
  then have cr: "filter (\<lambda>r. dep_id r \<notin> ?D) ?cr = ?cr" by (simp add: filter_id_conv)
  have crk: "str_dep ` set ?cr = str_dep ` set new - str_dep ` set ?cur"
    using created_rows_str[of "next_dep_id db" ?tc] to_create_keys[of new ?cur]
    by (metis set_map)
  have "str_dep ` set (current_dependencies fi db') =
          str_dep ` {r \<in> set ?cur. dep_id r \<notin> ?D} \<union> str_dep ` set ?cr"
    unfolding rebuild_outbound[OF nd ok] cr by (simp add: image_Un)
  also have "\<dots> = str_dep ` {r \<in> set ?cur. str_dep r \<in> str_dep ` set new}
                   \<union> (str_dep ` set new - str_dep ` set ?cur)"
    unfolding kept crk ..
  also have "\<dots> = str_dep ` set new"
  proof -
    let ?A = "str_dep ` {r \<in> set ?cur. str_dep r \<in> str_dep ` set new}"
    have "?A = str_dep ` set ?cur \<inter> str_dep ` set new" by blast
    then show ?thesis by blast
  qed
  finally show ?thesis .
qed


text \<open>
  Where the second rebuild does change nothing: the primary keys are unique and the
  stale rows of the field, those whose key no new dependency has, have pairwise distinct
  keys. Rows that share a key with a new dependency may be duplicated, as the two broken
  rows are that \<open>break_dependencies_for_field\<close> leaves of a direct edge and a via edge.
\<close>

lemma rebuild_twice_unchanged:
  assumes pk: "primary_keys_ok db"
    and new: "construct_new_dependencies fd fi cache = Inr new"
    and st: "distinct (map str_dep (filter (\<lambda>d. str_dep d \<notin> str_dep ` set new)
                                     (current_dependencies fi db)))"
    and first: "rebuild_field_dependencies circ fd fi cache db = (Inr (), db1)"
  shows "rebuild_field_dependencies circ fd fi cache db1 = (Inr (), db1)"
proof -
  from first new have ok: "diff_and_persist circ fi new db = (Inr (), db1)"
    by (simp add: rebuild_field_dependencies_def)
  from new have nd: "\<forall>e\<in>set new. dependant e = field_id fi"
    by (auto dest: construct_new_dependant)
  from rebuild_keys_stale[OF nd ok pk st] have "diff_and_persist circ fi new db1 = (Inr (), db1)"
    by (rule diff_and_persist_fixpoint)
  with new show ?thesis by (simp add: rebuild_field_dependencies_def)
qed

lemma rebuild_after_break_unchanged:
  "rebuild_field_dependencies will_cause_circular_dep (Some [ViaField ''l'' ''y''])
     (field_x) (lookup_by_name [field_x, field_y, field_f])
     (fixture_db [edge 5 11 None None (Some ''l''), edge 6 11 None None (Some ''l'')] 7) =
   (Inr (), fixture_db [edge 5 11 None None (Some ''l''), edge 6 11 None None (Some ''l'')] 7)"
  by (simp add: rebuild_eval lookup_by_name_def fixture_defs wccd_no_arcs upt_rec)


text \<open>
  Two resolved rows with one key arise from the code's own writes: breaking the link-row
  field \<open>l\<close> turns the direct edge and the via edge of \<open>x\<close> into two broken rows named
  \<open>l\<close>, and the repair for \<open>l\<close> resolves both to \<open>l\<close>.
\<close>

lemma duplicates_by_break_and_repair:
  "update_fields_with_broken_references will_cause_circular_dep field_l
     (break_dependencies_for_field field_l
        (fixture_db [edge 5 11 (Some 12) None None, edge 6 11 (Some 21) (Some 12) None] 7)) =
   (True, fixture_db [edge 5 11 (Some 12) None None, edge 6 11 (Some 12) None None] 7)"
proof -
  have b: "break_dependencies_for_field field_l
        (fixture_db [edge 5 11 (Some 12) None None, edge 6 11 (Some 21) (Some 12) None] 7) =
      fixture_db [edge 5 11 None None (Some ''l''), edge 6 11 None None (Some ''l'')] 7"
    by (simp add: break_dependencies_for_field_def Let_def fixture_db_def edge_def
          fixture_field_simps is_link_row_def)
  have d: "distinct (map dep_id (dependency_rows
     (fixture_db [edge 5 11 None None (Some ''l''), edge 6 11 None None (Some ''l'')] 7)))"
    by (simp add: fixture_db_def edge_def)
  have rows: "dependency_rows (fixture_db rows n) = rows" for rows n
    by (simp add: fixture_db_def)
  show ?thesis
    unfolding b repair_eq[OF d] rows
    by (simp add: fixed_by_fields_name_def repair_eval edge_def) (simp add: fixture_db_def)
qed


text \<open>
  C2. A second rebuild, with nothing changed in between, should insert no row and delete
  none. On the state above, once \<open>x\<close> refers to \<open>f\<close> instead of \<open>l\<close>, the code does
  otherwise. Both rows \<open>x \<rightarrow> l\<close> are stale, the dictionary of current rows holds only
  the later one, and the first rebuild deletes that one and leaves the other, although
  \<open>rebuild_field_dependencies\<close> documents that it deletes all existing dependencies of
  the field. The second rebuild then finds the row that was left and deletes it.
\<close>

theorem rebuild_leaves_stale_duplicate:
  "rebuild_field_dependencies will_cause_circular_dep (Some [FieldName ''f''])
     field_x fixture_cache
     (fixture_db [edge 5 11 (Some 12) None None, edge 6 11 (Some 12) None None] 7) =
   (Inr (), fixture_db [edge 5 11 (Some 12) None None, edge 7 11 (Some 14) None None] 8)
   \<and> rebuild_field_dependencies will_cause_circular_dep (Some [FieldName ''f''])
       field_x fixture_cache
       (fixture_db [edge 5 11 (Some 12) None None, edge 7 11 (Some 14) None None] 8) =
     (Inr (), fixture_db [edge 7 11 (Some 14) None None] 8)
   \<and> fixture_db [edge 7 11 (Some 14) None None] 8 \<noteq>
       fixture_db [edge 5 11 (Some 12) None None, edge 7 11 (Some 14) None None] 8"
  by (simp add: rebuild_eval fixture_cache_simps fixture_field_simps wccd_no_arcs
        fixture_db_def edge_def upt_rec)


end
